theory Spec2Isabelle
  imports Complex_Main
begin

section \<open>Conventions of the embedding\<close>

text \<open>
  The two C files of the finite-difference kernel are embedded as follows.
  A C \<open>double\<close> is an exact real number, so every statement about values is a statement of
  exact arithmetic. Sizes and loop counters (\<open>mwSize\<close>, \<open>int\<close>) are natural numbers, taken
  to be within the range of their C types; where the source subtracts in the unsigned type
  \<open>mwSize\<close> and the difference can be negative, the wrap-around is a branch of its own that
  ends in \<open>Undefined\<close>. A \<open>for\<close> loop over an index range is a \<open>fold\<close> over that range,
  and a store \<open>p[k] = e\<close> is the list update \<open>p[k := e]\<close>. Arrays that a claim says are
  new or untouched live on an explicit heap. A call that leaves the MEX function
  (\<open>mexErrMsgTxt\<close>, \<open>MPI_Abort\<close>, a failed \<open>mxAssert\<close>) is a value of the type
  \<open>error\<close>. The parameters \<open>dist\<close> and \<open>dim\<close> of \<open>diffOperator\<close> are written
  \<open>dist'\<close> and \<open>dim'\<close>, since the plain names are constants of the library.
\<close>

datatype error =
    InvalidArgument      \<comment> \<open>\<open>mexErrMsgTxt("Type must be 's' or 'r'!")\<close>\<close>
  | AssertionFailed      \<comment> \<open>a failed \<open>mxAssert\<close>\<close>
  | ConfigurationError   \<comment> \<open>\<open>MPI_Abort\<close> after "Too much MPI tasks"\<close>
  | Undefined            \<comment> \<open>the C program has no defined behaviour here\<close>

section \<open>Domain decomposition (\<open>mexFunction\<close>, set-up of the scatter counts)\<close>

record decomp =
  sendcounts_block_nx :: "nat list"
  displs_block_nx :: "nat list"
  sendcounts_band_nx :: "nat list"
  displs_band_nx :: "nat list"
  offset_block_nx :: nat

text \<open>The four arrays come from \<open>mxCalloc\<close>, which clears them.\<close>

definition decomp_init :: "nat \<Rightarrow> decomp" where
  "decomp_init numProcesses =
     \<lparr>sendcounts_block_nx = replicate numProcesses 0,
      displs_block_nx = replicate numProcesses 0,
      sendcounts_band_nx = replicate numProcesses 0,
      displs_band_nx = replicate numProcesses 0,
      offset_block_nx = 0\<rparr>"

text \<open>One pass through the body of the loop over \<open>irank\<close>.\<close>

definition decomp_step :: "nat \<Rightarrow> nat \<Rightarrow> nat \<Rightarrow> nat \<Rightarrow> decomp \<Rightarrow> decomp" where
  "decomp_step nz avg_nx rem_nx irank s =
     (let block_nx = (if irank < rem_nx then avg_nx + 1 else avg_nx);
          sc = (sendcounts_block_nx s)[irank := block_nx]
      in \<lparr>sendcounts_block_nx = sc,
          displs_block_nx = (displs_block_nx s)[irank := offset_block_nx s],
          sendcounts_band_nx = (sendcounts_band_nx s)[irank := nz * block_nx],
          displs_band_nx = (displs_band_nx s)[irank := nz * offset_block_nx s],
          offset_block_nx = offset_block_nx s + sc ! irank\<rparr>)"

text \<open>
  The decomposition as \<open>mexFunction\<close> computes it: more processes than columns abort the run;
  no process at all (which MPI excludes) would divide by zero.
\<close>

definition decompose :: "nat \<Rightarrow> nat \<Rightarrow> nat \<Rightarrow> error + decomp" where
  "decompose nz nx numProcesses =
     (if numProcesses > nx then Inl ConfigurationError
      else if numProcesses = 0 then Inl Undefined
      else let avg_nx = nx div numProcesses;
               rem_nx = nx mod numProcesses
           in Inr (fold (decomp_step nz avg_nx rem_nx) [0..<numProcesses]
                     (decomp_init numProcesses)))"

text \<open>The column range \<open>[offset, offset + count)\<close> that worker \<open>i\<close> owns.\<close>

definition columns_of :: "decomp \<Rightarrow> nat \<Rightarrow> nat set" where
  "columns_of d i = {displs_block_nx d ! i ..< displs_block_nx d ! i + sendcounts_block_nx d ! i}"

section \<open>MATLAB arrays and the heap that holds them\<close>

text \<open>
  An \<open>mxArray\<close> carries its dimensions and its data in column-major order. A pointer to
  an array is an index into the heap; \<open>mxCreateDoubleMatrix\<close> allocates a cleared array at
  the next free index and \<open>mxDestroyArray\<close> leaves a hole behind. Loads and stores through
  \<open>mxGetPr\<close> are \<open>rd\<close> and \<open>wr\<close>; a load through a dead pointer has no defined value.
  An array is well formed when it has at least two dimensions, as every MATLAB array has, and
  holds as many doubles as its extents multiply to.
\<close>

record mxArray =
  dims :: "nat list"
  pr :: "real list"

type_synonym heap = "mxArray option list"

definition deref :: "heap \<Rightarrow> nat \<Rightarrow> mxArray option" where
  "deref h a = (if a < length h then h ! a else None)"

definition rd :: "heap \<Rightarrow> nat \<Rightarrow> nat \<Rightarrow> real" where
  "rd h a k = (case deref h a of Some A \<Rightarrow> pr A ! k | None \<Rightarrow> undefined)"

definition wr :: "heap \<Rightarrow> nat \<Rightarrow> nat \<Rightarrow> real \<Rightarrow> heap" where
  "wr h a k x = (case deref h a of Some A \<Rightarrow> h[a := Some (A\<lparr>pr := (pr A)[k := x]\<rparr>)] | None \<Rightarrow> h)"

definition mxCreateNumericArray :: "nat list \<Rightarrow> heap \<Rightarrow> nat \<times> heap" where
  "mxCreateNumericArray ds h = (length h, h @ [Some \<lparr>dims = ds, pr = replicate (prod_list ds) 0\<rparr>])"

definition mxCreateDoubleMatrix :: "nat \<Rightarrow> nat \<Rightarrow> heap \<Rightarrow> nat \<times> heap" where
  "mxCreateDoubleMatrix m n h = (length h, h @ [Some \<lparr>dims = [m, n], pr = replicate (m * n) 0\<rparr>])"

definition mxDestroyArray :: "nat \<Rightarrow> heap \<Rightarrow> heap" where
  "mxDestroyArray a h = h[a := None]"

definition mxGetM :: "mxArray \<Rightarrow> nat" where
  "mxGetM A = (case dims A of [] \<Rightarrow> 0 | m # _ \<Rightarrow> m)"

definition mxGetN :: "mxArray \<Rightarrow> nat" where
  "mxGetN A = prod_list (tl (dims A))"

definition wf_mxArray :: "mxArray \<Rightarrow> bool" where
  "wf_mxArray A \<longleftrightarrow> 2 \<le> length (dims A) \<and> length (pr A) = prod_list (dims A)"

section \<open>The damping profile (\<open>dampPml\<close>)\<close>

text \<open>
  \<open>u\<close> and \<open>v\<close> are pointers to arrays on the heap. \<open>mxAssert\<close> stops the MEX function when
  the shapes differ (in a build with assertions). The temporary \<open>d0\<close> and the result \<open>d\<close> are
  allocated by the function; \<open>d0\<close> is destroyed before it returns. Division is that of the
  reals, which says nothing faithful about \<open>L = 0\<close>, where IEEE arithmetic produces
  infinities and NaNs.
\<close>

definition dampPml :: "nat \<Rightarrow> nat \<Rightarrow> real \<Rightarrow> heap \<Rightarrow> error + nat \<times> heap" where
  "dampPml u v L h =
     (case (deref h u, deref h v) of
        (Some U, Some V) \<Rightarrow>
          (let R = 1 / 1000000;
               logR = ln R;
               m = mxGetM U;
               n = mxGetN U
           in if m \<noteq> mxGetM V then Inl AssertionFailed
              else if n \<noteq> mxGetN V then Inl AssertionFailed
              else
                (let (d0, h1) = mxCreateDoubleMatrix m n h;
                     h2 = fold (\<lambda>j. fold (\<lambda>i h.
                            wr h d0 (j * m + i) (- (3 * rd h v (j * m + i)) / (2 * L) * logR))
                            [0..<m]) [0..<n] h1;
                     (d, h3) = mxCreateDoubleMatrix m n h2;
                     h4 = fold (\<lambda>j. fold (\<lambda>i h.
                            wr h d (j * m + i)
                              (rd h d0 (j * m + i) * (rd h u (j * m + i) / L) * (rd h u (j * m + i) / L)))
                            [0..<m]) [0..<n] h3;
                     h5 = mxDestroyArray d0 h4
                 in Inr (d, h5)))
      | _ \<Rightarrow> Inl Undefined)"

text \<open>
  The two loop nests of \<open>dampPml\<close> on the data of the arrays alone: first \<open>pd0\<close> from
  \<open>pv\<close>, then \<open>pd\<close> from \<open>pd0\<close> and \<open>pu\<close>.
\<close>

definition d0_loops :: "real list \<Rightarrow> nat \<Rightarrow> nat \<Rightarrow> real \<Rightarrow> real list \<Rightarrow> real list" where
  "d0_loops pv m n L p =
     fold (\<lambda>j. fold (\<lambda>i p. p[j * m + i := - (3 * pv ! (j * m + i)) / (2 * L) * ln (1 / 1000000)])
       [0..<m]) [0..<n] p"

definition d_loops :: "real list \<Rightarrow> real list \<Rightarrow> nat \<Rightarrow> nat \<Rightarrow> real \<Rightarrow> real list \<Rightarrow> real list" where
  "d_loops pd0 pu m n L p =
     fold (\<lambda>j. fold (\<lambda>i p. p[j * m + i := pd0 ! (j * m + i) * (pu ! (j * m + i) / L) * (pu ! (j * m + i) / L)])
       [0..<m]) [0..<n] p"

section \<open>The damping profile along \<open>z\<close> (\<open>mexFunction\<close>)\<close>

text \<open>
  Modelled from the spec: the five-argument \<open>dampPml\<close> on raw buffers that \<open>mexFunction\<close>
  calls is declared in \<open>finiteDifference.h\<close>, which is not among the sources. It is taken to
  run the two loop nests of the \<open>dampPml\<close> of \<open>finiteDifference.c\<close> on buffers of
  \<open>m * n\<close> doubles, which is the profile of the specification:
  \<open>d0 = -(3*v)/(2*L) * ln(R)\<close> and \<open>damping = d0 * (u/L)^2\<close> with \<open>R = 1e-6\<close>.
\<close>

definition dampPml_raw :: "real list \<Rightarrow> real list \<Rightarrow> nat \<Rightarrow> nat \<Rightarrow> real \<Rightarrow> real list" where
  "dampPml_raw pu pv m n L =
     (let pd0 = d0_loops pv m n L (replicate (m * n) 0)
      in d_loops pd0 pu m n L (replicate (m * n) 0))"

text \<open>
  The part of \<open>mexFunction\<close> under the comment "z-axis damp profile". \<open>count\<close> stands for
  \<open>sendcounts_block_nx[taskId]\<close>. All buffers are local and come cleared from
  \<open>mxCalloc\<close>. With \<open>boundary > nz\<close> the unsigned \<open>nz - boundary\<close> wraps and the
  reads leave the velocity buffer.
\<close>

definition mexFunction_zDamp ::
  "nat \<Rightarrow> nat \<Rightarrow> nat \<Rightarrow> real \<Rightarrow> real \<Rightarrow> real list \<Rightarrow> error + real list \<times> real list" where
  "mexFunction_zDamp nz count boundary dz dt pVelocityModel_local =
     (if nz < boundary then Inl Undefined
      else
        (let puDampDown_local =
               fold (\<lambda>j. fold (\<lambda>i p. p[j * boundary + i := (real i + 1) * dz]) [0..<boundary])
                 [0..<count] (replicate (boundary * count) 0);
             pvDampDown_local =
               fold (\<lambda>j. fold (\<lambda>i p.
                       p[j * boundary + i := pVelocityModel_local ! (j * nz + (nz - boundary + i))])
                     [0..<boundary])
                 [0..<count] (replicate (boundary * count) 0);
             pzDampDown_local =
               dampPml_raw puDampDown_local pvDampDown_local boundary count (real boundary * dz);
             pzDamp_local =
               fold (\<lambda>j. fold (\<lambda>i p.
                       p[j * nz + i := pzDampDown_local ! (j * boundary + i - (nz - boundary))])
                     [nz - boundary..<nz])
                 [0..<count] (replicate (nz * count) 0);
             pzb_local =
               fold (\<lambda>j. fold (\<lambda>i p. p[j * nz + i := exp (- pzDamp_local ! (j * nz + i) * dt)])
                     [0..<nz])
                 [0..<count] (replicate (nz * count) 0)
         in Inr (pzDamp_local, pzb_local)))"

section \<open>The difference operator (\<open>diffOperator\<close>)\<close>

definition mxGetNumberOfDimensions :: "mxArray \<Rightarrow> nat" where
  "mxGetNumberOfDimensions A = length (dims A)"

definition mxGetNumberOfElements :: "mxArray \<Rightarrow> nat" where
  "mxGetNumberOfElements A = prod_list (dims A)"

text \<open>
  The innermost loop of \<open>diffOperator\<close>. The source writes it five times, once per
  dimensionality and axis, and the copies differ only in how the running counter and the two
  stencil positions are turned into offsets; these two maps are the parameters \<open>out\<close> and
  \<open>inp\<close>. The loop runs \<open>idx1\<close> from \<open>order + iOrder\<close> up to and including
  \<open>n - order + iOrder\<close>, with the counter (\<open>i\<close>, \<open>j\<close> or \<open>k\<close> in the source)
  starting at 0 and \<open>idx2\<close> starting at \<open>order - (iOrder + 1)\<close>, both stepping by one.
  Every load and store goes through the heap.
\<close>

definition stencil_sweep ::
  "nat \<Rightarrow> nat \<Rightarrow> nat \<Rightarrow> real \<Rightarrow> nat \<Rightarrow> nat \<Rightarrow> nat \<Rightarrow> (nat \<Rightarrow> nat) \<Rightarrow> (nat \<Rightarrow> nat) \<Rightarrow> heap \<Rightarrow> heap" where
  "stencil_sweep diffData data coeff dist' order iOrder n out inp h =
     (let (c, idx2, h') =
            fold (\<lambda>idx1 (c, idx2, h).
                    (c + 1, idx2 + 1,
                     wr h diffData (out c)
                       (rd h diffData (out c) +
                        rd h coeff iOrder * (rd h data (inp idx1) - rd h data (inp idx2)) / dist')))
              [order + iOrder ..< Suc (n - order + iOrder)]
              (0, order - (iOrder + 1), h)
      in h')"

text \<open>
  \<open>l = 2 * order - 1\<close> is an \<open>int\<close> in the source (it is \<open>-1\<close> for an empty
  coefficient vector). The extent \<open>n - l\<close> of the result is computed in the unsigned type
  \<open>mwSize\<close>: for \<open>n < l\<close> it wraps around to a number near \<open>2\<^sup>6\<^sup>4\<close>, the
  allocation and the loop bounds are then meaningless, and the model stops with
  \<open>Undefined\<close>. The source has no check of its own there. An array of more than three
  dimensions makes \<open>mxCreateNumericArray\<close> read past the three extents it is given.
\<close>

definition diffOperator :: "nat \<Rightarrow> nat \<Rightarrow> real \<Rightarrow> int \<Rightarrow> heap \<Rightarrow> error + nat \<times> heap" where
  "diffOperator data coeff dist' dim' h =
     (case (deref h data, deref h coeff) of
        (Some Data, Some Coeff) \<Rightarrow>
          (let dim = (if dim' < 1 then 1 else dim');
               ndims = mxGetNumberOfDimensions Data;
               order = mxGetNumberOfElements Coeff;
               l = 2 * int order - 1
           in if ndims \<le> 2 then
                (let n1 = dims Data ! 0; n2 = dims Data ! 1
                 in if dim = 1 then
                      (if int n1 < l then Inl Undefined
                       else
                         (let n1l = nat (int n1 - l);
                              (diffData, h1) = mxCreateDoubleMatrix n1l n2 h
                          in Inr (diffData,
                               fold (\<lambda>iOrder. fold (\<lambda>j.
                                   stencil_sweep diffData data coeff dist' order iOrder n1
                                     (\<lambda>i. j * n1l + i) (\<lambda>idx. j * n1 + idx))
                                 [0..<n2]) [0..<order] h1)))
                    else
                      (if int n2 < l then Inl Undefined
                       else
                         (let n2l = nat (int n2 - l);
                              (diffData, h1) = mxCreateDoubleMatrix n1 n2l h
                          in Inr (diffData,
                               fold (\<lambda>iOrder. fold (\<lambda>i.
                                   stencil_sweep diffData data coeff dist' order iOrder n2
                                     (\<lambda>j. j * n1 + i) (\<lambda>idx. idx * n1 + i))
                                 [0..<n1]) [0..<order] h1))))
              else if 3 < ndims then Inl Undefined
              else
                (let n1 = dims Data ! 0; n2 = dims Data ! 1; n3 = dims Data ! 2
                 in if dim = 1 then
                      (if int n1 < l then Inl Undefined
                       else
                         (let n1l = nat (int n1 - l);
                              (diffData, h1) = mxCreateNumericArray [n1l, n2, n3] h
                          in Inr (diffData,
                               fold (\<lambda>iOrder. fold (\<lambda>k. fold (\<lambda>j.
                                   stencil_sweep diffData data coeff dist' order iOrder n1
                                     (\<lambda>i. k * (n1l * n2) + j * n1l + i)
                                     (\<lambda>idx. k * (n1 * n2) + j * n1 + idx))
                                 [0..<n2]) [0..<n3]) [0..<order] h1)))
                    else if dim = 2 then
                      (if int n2 < l then Inl Undefined
                       else
                         (let n2l = nat (int n2 - l);
                              (diffData, h1) = mxCreateNumericArray [n1, n2l, n3] h
                          in Inr (diffData,
                               fold (\<lambda>iOrder. fold (\<lambda>k. fold (\<lambda>i.
                                   stencil_sweep diffData data coeff dist' order iOrder n2
                                     (\<lambda>j. k * (n1 * n2l) + j * n1 + i)
                                     (\<lambda>idx. k * (n1 * n2) + idx * n1 + i))
                                 [0..<n1]) [0..<n3]) [0..<order] h1)))
                    else
                      (if int n3 < l then Inl Undefined
                       else
                         (let n3l = nat (int n3 - l);
                              (diffData, h1) = mxCreateNumericArray [n1, n2, n3l] h
                          in Inr (diffData,
                               fold (\<lambda>iOrder. fold (\<lambda>j. fold (\<lambda>i.
                                   stencil_sweep diffData data coeff dist' order iOrder n3
                                     (\<lambda>k. k * (n1 * n2) + j * n1 + i)
                                     (\<lambda>idx. idx * (n1 * n2) + j * n1 + i))
                                 [0..<n1]) [0..<n2]) [0..<order] h1)))))
      | _ \<Rightarrow> Inl Undefined)"

section \<open>The stencil coefficients (\<open>dCoef\<close>)\<close>

text \<open>
  Modelled from the spec: \<open>mldivide\<close> is MATLAB's built-in \<open>A \ b\<close>, reached through
  \<open>mexCallMATLAB\<close>; it is not code of this repository. The specification asks for "a general
  linear solve (any dense solver -- LU decomposition is sufficient)". The model is Gaussian
  elimination in exact arithmetic on a square system: pick the first equation whose leading
  coefficient is not zero, eliminate the first unknown from the others, solve the rest and
  substitute back. A singular matrix, for which MATLAB warns and returns infinities or NaNs, has
  no result in the model.
\<close>

type_synonym equation = "real list \<times> real"

fun dot :: "real list \<Rightarrow> real list \<Rightarrow> real" where
  "dot (a # as) (x # xs) = a * x + dot as xs"
| "dot _ _ = 0"

fun find_pivot :: "equation list \<Rightarrow> (equation \<times> equation list) option" where
  "find_pivot [] = None"
| "find_pivot (e # es) =
     (if hd (fst e) \<noteq> 0 then Some (e, es)
      else (case find_pivot es of None \<Rightarrow> None | Some (p, rest) \<Rightarrow> Some (p, e # rest)))"

definition eliminate :: "equation \<Rightarrow> equation \<Rightarrow> equation" where
  "eliminate p e =
     (let f = hd (fst e) / hd (fst p)
      in (map2 (\<lambda>a c. a - f * c) (tl (fst e)) (tl (fst p)), snd e - f * snd p))"

fun solve :: "equation list \<Rightarrow> nat \<Rightarrow> real list option" where
  "solve eqs 0 = Some []"
| "solve eqs (Suc n) =
     (case find_pivot eqs of
        None \<Rightarrow> None
      | Some (p, rest) \<Rightarrow>
          (case solve (map (eliminate p) rest) n of
             None \<Rightarrow> None
           | Some xs \<Rightarrow> Some ((snd p - dot (tl (fst p)) xs) / hd (fst p) # xs)))"

definition mldivide :: "mxArray \<Rightarrow> mxArray \<Rightarrow> mxArray option" where
  "mldivide A b =
     (let n = mxGetM A;
          eqs = map (\<lambda>i. (map (\<lambda>j. pr A ! (j * n + i)) [0..<n], pr b ! i)) [0..<n]
      in map_option (\<lambda>c. \<lparr>dims = [n, 1], pr = c\<rparr>) (solve eqs n))"

text \<open>
  \<open>dCoef\<close> builds \<open>A\<close> and \<open>b\<close>; both are private to the call and destroyed before it
  returns, so they are values here, not heap cells. \<open>dCoef_system\<close> is the part of
  \<open>dCoef\<close> before the call of \<open>mldivide\<close>. The matrix is stored by columns: the entry in
  row \<open>i\<close> and column \<open>j\<close> is \<open>pA[j * order + i]\<close>. The order is a natural number here; a
  negative \<open>int\<close> would ask \<open>mxCreateDoubleMatrix\<close> for an array of negative size.
  \<open>pb[0]\<close> is stored before the loops; for
  \<open>order = 0\<close> that store is outside the empty array. \<open>strcmp\<close> returns 0 exactly for equal
  strings. The powers are taken in exact arithmetic. They are integers, and a double holds
  every integer up to \<open>2^53\<close>, which covers the entries up to order 7 for the type \<open>''s''\<close>
  and up to order 8 for the type \<open>''r''\<close>; beyond that the source stores a rounded value.
\<close>

definition dCoef_system :: "nat \<Rightarrow> string \<Rightarrow> error + mxArray \<times> mxArray" where
  "dCoef_system order type =
     (let pA = replicate (order * order) 0;
          pb = replicate order 0
      in if type = ''r'' then
           (if order = 0 then Inl Undefined
            else Inr (\<lparr>dims = [order, order],
                        pr = fold (\<lambda>j. fold (\<lambda>i pA.
                               pA[j * order + i := (real j + 1) ^ (2 * (i + 1) - 1)])
                             [0..<order]) [0..<order] pA\<rparr>,
                      \<lparr>dims = [order, 1], pr = pb[0 := 1 / 2]\<rparr>))
         else if type = ''s'' then
           (if order = 0 then Inl Undefined
            else Inr (\<lparr>dims = [order, order],
                        pr = fold (\<lambda>j. fold (\<lambda>i pA.
                               pA[j * order + i := (2 * (real j + 1) - 1) ^ (2 * (i + 1) - 1)])
                             [0..<order]) [0..<order] pA\<rparr>,
                      \<lparr>dims = [order, 1], pr = pb[0 := 1]\<rparr>))
         else Inl InvalidArgument)"

definition dCoef :: "nat \<Rightarrow> string \<Rightarrow> error + mxArray" where
  "dCoef order type =
     (case dCoef_system order type of
        Inl e \<Rightarrow> Inl e
      | Inr (A, b) \<Rightarrow> (case mldivide A b of None \<Rightarrow> Inl Undefined | Some c \<Rightarrow> Inr c))"

section \<open>Auxiliary notions for statements and proofs\<close>

text \<open>The state after the first \<open>k\<close> passes of the loop, in closed form.\<close>

definition block_size :: "nat \<Rightarrow> nat \<Rightarrow> nat \<Rightarrow> nat" where
  "block_size avg r i = (if i < r then avg + 1 else avg)"

definition block_start :: "nat \<Rightarrow> nat \<Rightarrow> nat \<Rightarrow> nat" where
  "block_start avg r i = i * avg + min i r"

text \<open>Two heaps that agree everywhere except at address \<open>d\<close>.\<close>

definition frame :: "nat \<Rightarrow> heap \<Rightarrow> heap \<Rightarrow> bool" where
  "frame d h h' \<longleftrightarrow> length h' = length h \<and> (\<forall>b. b \<noteq> d \<longrightarrow> deref h' b = deref h b)"

text \<open>
  The column-major offset of a multi-index in an array of the given extents, as MATLAB stores
  arrays: \<open>sub2ind [n1, n2, n3] [i, j, k] = i + n1 * (j + n2 * k)\<close>.
\<close>

fun sub2ind :: "nat list \<Rightarrow> nat list \<Rightarrow> nat" where
  "sub2ind (d # ds) (i # is) = i + d * sub2ind ds is"
| "sub2ind _ _ = 0"

text \<open>
  Notions for stating and proving the properties of \<open>diffOperator\<close>: the innermost loop and
  the whole loop nest on the data of the result alone, and what it means for an array to be the
  stencil derivative of another along the axis \<open>ax\<close> (counted from 0).
\<close>

definition sweep_list ::
  "real list \<Rightarrow> real list \<Rightarrow> real \<Rightarrow> nat \<Rightarrow> nat \<Rightarrow> nat \<Rightarrow> (nat \<Rightarrow> nat) \<Rightarrow> (nat \<Rightarrow> nat)
     \<Rightarrow> real list \<Rightarrow> real list" where
  "sweep_list pData pCoeff dist' order iOrder n out inp p =
     fold (\<lambda>t p. p[out t := p ! out t +
              pCoeff ! iOrder * (pData ! inp (order + iOrder + t)
                                  - pData ! inp (order - (iOrder + 1) + t)) / dist'])
       [0..<Suc (n - order + iOrder) - (order + iOrder)] p"

definition is_derivative :: "mxArray \<Rightarrow> mxArray \<Rightarrow> real \<Rightarrow> nat \<Rightarrow> mxArray \<Rightarrow> bool" where
  "is_derivative Data Coeff dist' ax D \<longleftrightarrow>
     length (dims D) = length (dims Data)
     \<and> (\<forall>a<length (dims Data).
           int (dims D ! a) = (if a = ax then int (dims Data ! a) - (2 * int (length (pr Coeff)) - 1)
                               else int (dims Data ! a)))
     \<and> length (pr D) = prod_list (dims D)
     \<and> (\<forall>is. list_all2 (<) is (dims D) \<longrightarrow>
           pr D ! sub2ind (dims D) is =
             (\<Sum>k<length (pr Coeff).
                pr Coeff ! k * (pr Data ! sub2ind (dims Data) (is[ax := is ! ax + length (pr Coeff) + k])
                               - pr Data ! sub2ind (dims Data) (is[ax := is ! ax + length (pr Coeff) - 1 - k]))
                  / dist'))"

definition stencil_loops ::
  "real list \<Rightarrow> real list \<Rightarrow> real \<Rightarrow> nat \<Rightarrow> nat \<Rightarrow> 'a list \<Rightarrow> ('a \<Rightarrow> nat \<Rightarrow> nat) \<Rightarrow> ('a \<Rightarrow> nat \<Rightarrow> nat)
     \<Rightarrow> real list \<Rightarrow> real list" where
  "stencil_loops pData pCoeff dist' order n as out inp p =
     fold (\<lambda>iOrder. fold (\<lambda>a. sweep_list pData pCoeff dist' order iOrder n (out a) (inp a)) as)
       [0..<order] p"

text \<open>A system of \<open>n\<close> unknowns is regular when only the zero vector solves its homogeneous form.\<close>

definition regular :: "equation list \<Rightarrow> nat \<Rightarrow> bool" where
  "regular eqs n \<longleftrightarrow>
     (\<forall>xs. length xs = n \<and> (\<forall>e\<in>set eqs. dot (fst e) xs = 0) \<longrightarrow> xs = replicate n 0)"

section \<open>Properties of the domain decomposition\<close>

lemma block_start_Suc: "block_start avg r (Suc i) = block_start avg r i + block_size avg r i"
  by (simp add: block_start_def block_size_def min_def)

lemma decomp_loop_state:
  assumes "k \<le> p"
  shows "fold (decomp_step nz avg r) [0..<k] (decomp_init p) =
           \<lparr>sendcounts_block_nx = map (block_size avg r) [0..<k] @ replicate (p - k) 0,
            displs_block_nx = map (block_start avg r) [0..<k] @ replicate (p - k) 0,
            sendcounts_band_nx = map (\<lambda>i. nz * block_size avg r i) [0..<k] @ replicate (p - k) 0,
            displs_band_nx = map (\<lambda>i. nz * block_start avg r i) [0..<k] @ replicate (p - k) 0,
            offset_block_nx = block_start avg r k\<rparr>"
  using assms
proof (induction k)
  case 0
  then show ?case by (simp add: decomp_init_def block_start_def)
next
  case (Suc k)
  then have k: "k < p" by simp
  have upd: "\<And>f v. (map f [0..<k] @ replicate (p - k) (0::nat))[k := v]
               = map f [0..<k] @ v # replicate (p - Suc k) 0"
  proof -
    fix f :: "nat \<Rightarrow> nat" and v :: nat
    obtain m where m: "p - k = Suc m" using k by (cases "p - k") simp_all
    then have "p - Suc k = m" by simp
    with m show "(map f [0..<k] @ replicate (p - k) (0::nat))[k := v]
               = map f [0..<k] @ v # replicate (p - Suc k) 0"
      by (simp add: list_update_append)
  qed
  have upd_nth: "\<And>f v. (map f [0..<k] @ v # replicate (p - Suc k) (0::nat)) ! k = v"
    by (simp add: nth_append)
  from Suc show ?case
    by (simp add: decomp_step_def Let_def upd upd_nth block_start_Suc block_size_def)
qed

lemma decompose_closed_form:
  assumes "1 \<le> p" "p \<le> nx"
  shows "decompose nz nx p =
           Inr \<lparr>sendcounts_block_nx = map (block_size (nx div p) (nx mod p)) [0..<p],
                displs_block_nx = map (block_start (nx div p) (nx mod p)) [0..<p],
                sendcounts_band_nx = map (\<lambda>i. nz * block_size (nx div p) (nx mod p) i) [0..<p],
                displs_band_nx = map (\<lambda>i. nz * block_start (nx div p) (nx mod p) i) [0..<p],
                offset_block_nx = block_start (nx div p) (nx mod p) p\<rparr>"
  using assms by (simp add: decompose_def Let_def decomp_loop_state)

lemma block_start_mono: "i \<le> j \<Longrightarrow> block_start avg r i \<le> block_start avg r j"
  unfolding block_start_def by (intro add_mono mult_le_mono1 min.mono) simp_all

lemma block_start_total: "0 < p \<Longrightarrow> block_start (nx div p) (nx mod p) p = nx"
proof -
  assume "0 < p"
  then have "nx mod p < p" by simp
  then have "min p (nx mod p) = nx mod p" by simp
  then show ?thesis by (simp add: block_start_def mult.commute)
qed

lemma block_start_sum: "block_start avg r i = (\<Sum>k<i. block_size avg r k)"
  by (induction i) (simp_all add: block_start_Suc, simp add: block_start_def)

lemma block_ranges_disjoint:
  assumes "i \<noteq> j"
  shows "{block_start avg r i ..< block_start avg r i + block_size avg r i} \<inter>
         {block_start avg r j ..< block_start avg r j + block_size avg r j} = {}"
proof -
  have less: "{block_start avg r a ..< block_start avg r a + block_size avg r a} \<inter>
         {block_start avg r b ..< block_start avg r b + block_size avg r b} = {}" if "a < b" for a b
  proof -
    from that have "Suc a \<le> b" by simp
    then have "block_start avg r (Suc a) \<le> block_start avg r b" by (rule block_start_mono)
    then have "block_start avg r a + block_size avg r a \<le> block_start avg r b"
      by (simp add: block_start_Suc)
    then show ?thesis by auto
  qed
  from assms consider "i < j" | "j < i" by linarith
  then show ?thesis
  proof cases
    case 1 then show ?thesis by (rule less)
  next
    case 2 then show ?thesis using less [of j i] by (simp add: Int_commute)
  qed
qed

lemma block_ranges_cover:
  "(\<Union>i<p. {block_start avg r i ..< block_start avg r i + block_size avg r i})
     = {0 ..< block_start avg r p}"
proof (induction p)
  case 0
  then show ?case by (simp add: block_start_def)
next
  case (Suc p)
  have "block_start avg r p \<le> block_start avg r (Suc p)" by (simp add: block_start_Suc)
  then have "{0 ..< block_start avg r p} \<union> {block_start avg r p ..< block_start avg r (Suc p)}
               = {0 ..< block_start avg r (Suc p)}"
    by auto
  with Suc show ?case by (simp add: lessThan_Suc block_start_Suc [symmetric] Un_commute)
qed

text \<open>
  Claim C3. For \<open>nx \<ge> numWorkers \<ge> 1\<close> the decomposition loop of \<open>mexFunction\<close> succeeds and
  fills one count and one offset per worker: worker \<open>i\<close> gets \<open>avg + 1\<close> columns when
  \<open>i < rem\<close> and \<open>avg\<close> columns otherwise (\<open>avg = nx div numWorkers\<close>,
  \<open>rem = nx mod numWorkers\<close>), every offset is the sum of the counts before it, each range starts
  where the previous one ends, the ranges are pairwise disjoint, their union is \<open>[0, nx)\<close>, and
  two counts differ by at most one.
\<close>

theorem decompose_partition:
  assumes "1 \<le> numWorkers" and "numWorkers \<le> nx"
  shows "\<exists>d. decompose nz nx numWorkers = Inr d
           \<and> length (sendcounts_block_nx d) = numWorkers
           \<and> length (displs_block_nx d) = numWorkers
           \<and> (\<forall>i<numWorkers. sendcounts_block_nx d ! i =
                 (if i < nx mod numWorkers then nx div numWorkers + 1 else nx div numWorkers))
           \<and> (\<forall>i<numWorkers. displs_block_nx d ! i = (\<Sum>k<i. sendcounts_block_nx d ! k))
           \<and> (\<forall>i. Suc i < numWorkers \<longrightarrow>
                 displs_block_nx d ! Suc i = displs_block_nx d ! i + sendcounts_block_nx d ! i)
           \<and> (\<forall>i<numWorkers. \<forall>j<numWorkers. i \<noteq> j \<longrightarrow> columns_of d i \<inter> columns_of d j = {})
           \<and> (\<Union>i<numWorkers. columns_of d i) = {0..<nx}
           \<and> (\<forall>i<numWorkers. \<forall>j<numWorkers.
                 sendcounts_block_nx d ! i \<le> sendcounts_block_nx d ! j + 1)"
proof -
  let ?avg = "nx div numWorkers" and ?r = "nx mod numWorkers"
  let ?d = "\<lparr>sendcounts_block_nx = map (block_size ?avg ?r) [0..<numWorkers],
             displs_block_nx = map (block_start ?avg ?r) [0..<numWorkers],
             sendcounts_band_nx = map (\<lambda>i. nz * block_size ?avg ?r i) [0..<numWorkers],
             displs_band_nx = map (\<lambda>i. nz * block_start ?avg ?r i) [0..<numWorkers],
             offset_block_nx = block_start ?avg ?r numWorkers\<rparr>"
  have d: "decompose nz nx numWorkers = Inr ?d"
    using assms by (rule decompose_closed_form)
  have cols: "columns_of ?d i = {block_start ?avg ?r i ..< block_start ?avg ?r i + block_size ?avg ?r i}"
    if "i < numWorkers" for i
    using that by (simp add: columns_of_def)
  have c1: "\<forall>i<numWorkers. sendcounts_block_nx ?d ! i = (if i < ?r then ?avg + 1 else ?avg)"
    by (simp add: block_size_def)
  have c2: "\<forall>i<numWorkers. displs_block_nx ?d ! i = (\<Sum>k<i. sendcounts_block_nx ?d ! k)"
    by (simp add: block_start_sum)
  have c3: "\<forall>i. Suc i < numWorkers \<longrightarrow>
              displs_block_nx ?d ! Suc i = displs_block_nx ?d ! i + sendcounts_block_nx ?d ! i"
    by (simp add: block_start_Suc)
  have c4: "\<forall>i<numWorkers. \<forall>j<numWorkers. i \<noteq> j \<longrightarrow> columns_of ?d i \<inter> columns_of ?d j = {}"
    using block_ranges_disjoint by (simp add: cols)
  have "(\<Union>i<numWorkers. columns_of ?d i)
          = (\<Union>i<numWorkers. {block_start ?avg ?r i ..< block_start ?avg ?r i + block_size ?avg ?r i})"
    using cols by (intro SUP_cong) simp_all
  also have "\<dots> = {0..<block_start ?avg ?r numWorkers}" by (rule block_ranges_cover)
  also have "\<dots> = {0..<nx}" using assms(1) by (simp add: block_start_total)
  finally have c5: "(\<Union>i<numWorkers. columns_of ?d i) = {0..<nx}" .
  have c6: "\<forall>i<numWorkers. \<forall>j<numWorkers. sendcounts_block_nx ?d ! i \<le> sendcounts_block_nx ?d ! j + 1"
    by (simp add: block_size_def)
  have l1: "length (sendcounts_block_nx ?d) = numWorkers"
    and l2: "length (displs_block_nx ?d) = numWorkers"
    by simp_all
  show ?thesis
    by (rule exI [of _ ?d]) (intro conjI d l1 l2 c1 c2 c3 c4 c5 c6)
qed

theorem decompose_partition_witness:
  "(1::nat) \<le> 3 \<and> (3::nat) \<le> 7 \<and>
   (\<exists>d. decompose 2 7 3 = Inr d
      \<and> sendcounts_block_nx d = [3, 2, 2] \<and> displs_block_nx d = [0, 3, 5]
      \<and> (\<Union>i<3. columns_of d i) = {0..<7})"
proof -
  have h1: "(1::nat) \<le> 3" and h2: "(3::nat) \<le> 7" by simp_all
  from decompose_partition [OF h1 h2, of 2]
  obtain d where d: "decompose 2 7 3 = Inr d" and u: "(\<Union>i<3. columns_of d i) = {0..<7}"
    by (elim exE conjE)
  have "decompose 2 7 3 = Inr \<lparr>sendcounts_block_nx = [3, 2, 2], displs_block_nx = [0, 3, 5],
          sendcounts_band_nx = [6, 4, 4], displs_band_nx = [0, 6, 10], offset_block_nx = 7\<rparr>"
    by code_simp
  with d have "sendcounts_block_nx d = [3, 2, 2]" "displs_block_nx d = [0, 3, 5]" by auto
  with d u h1 h2 show ?thesis by (intro conjI exI [of _ d])
qed

section \<open>Loops that store into one array of the heap\<close>

lemma frame_refl: "frame d h h"
  by (simp add: frame_def)

lemma frame_update:
  "frame d h h' \<Longrightarrow> frame d h (h'[d := X])"
  by (auto simp: frame_def deref_def)

lemma deref_update_same: "d < length h \<Longrightarrow> deref (h[d := X]) d = X"
  by (simp add: deref_def)

lemma deref_Some_length: "deref h d = Some D \<Longrightarrow> d < length h"
  by (simp add: deref_def split: if_splits)

lemma heap_fold_local:
  assumes "deref h d = Some D"
    and "\<And>x h' D'. frame d h h' \<Longrightarrow> deref h' d = Some D' \<Longrightarrow> dims D' = dims D \<Longrightarrow>
            step x h' = h'[d := Some (D'\<lparr>pr := B x (pr D')\<rparr>)]"
  shows "fold step xs h = h[d := Some (D\<lparr>pr := fold B xs (pr D)\<rparr>)]"
proof -
  have "frame d h h' \<Longrightarrow> deref h' d = Some D' \<Longrightarrow> dims D' = dims D \<Longrightarrow>
          fold step xs h' = h'[d := Some (D'\<lparr>pr := fold B xs (pr D')\<rparr>)]" for h' D'
  proof (induction xs arbitrary: h' D')
    case Nil
    then have "h'[d := Some D'] = h'"
      by (metis deref_def list_update_id option.distinct(1))
    then show ?case by simp
  next
    case (Cons x xs)
    let ?h = "h'[d := Some (D'\<lparr>pr := B x (pr D')\<rparr>)]"
    have s: "step x h' = ?h" using Cons.prems by (rule assms(2))
    have f: "frame d h ?h" using Cons.prems(1) by (rule frame_update)
    have dd: "deref ?h d = Some (D'\<lparr>pr := B x (pr D')\<rparr>)"
      using Cons.prems(2) by (simp add: deref_update_same deref_Some_length)
    have "fold step xs ?h = ?h[d := Some ((D'\<lparr>pr := B x (pr D')\<rparr>)\<lparr>pr := fold B xs (pr (D'\<lparr>pr := B x (pr D')\<rparr>))\<rparr>)]"
      using f dd by (rule Cons.IH) (simp add: Cons.prems)
    then show ?case by (simp add: s)
  qed
  from this [OF frame_refl assms(1)] show ?thesis by simp
qed


lemma frame_trans: "frame d h h' \<Longrightarrow> frame d h' h'' \<Longrightarrow> frame d h h''"
  by (simp add: frame_def)

lemma heap_fold_local2:
  assumes D: "deref h d = Some D"
    and st: "\<And>j i h' D'. frame d h h' \<Longrightarrow> deref h' d = Some D' \<Longrightarrow> dims D' = dims D \<Longrightarrow>
            step j i h' = h'[d := Some (D'\<lparr>pr := B j i (pr D')\<rparr>)]"
  shows "fold (\<lambda>j. fold (step j) (ys j)) xs h
           = h[d := Some (D\<lparr>pr := fold (\<lambda>j. fold (B j) (ys j)) xs (pr D)\<rparr>)]"
proof (rule heap_fold_local [OF D])
  fix j h' D'
  assume f: "frame d h h'" and D': "deref h' d = Some D'" and dm: "dims D' = dims D"
  show "fold (step j) (ys j) h' = h'[d := Some (D'\<lparr>pr := fold (B j) (ys j) (pr D')\<rparr>)]"
  proof (rule heap_fold_local [OF D'])
    fix i h'' D''
    assume "frame d h' h''" and "deref h'' d = Some D''" and "dims D'' = dims D'"
    with f dm show "step j i h'' = h''[d := Some (D''\<lparr>pr := B j i (pr D'')\<rparr>)]"
      by (intro st) (auto intro: frame_trans)
  qed
qed

lemma wr_local: "deref h d = Some D \<Longrightarrow> wr h d k x = h[d := Some (D\<lparr>pr := (pr D)[k := x]\<rparr>)]"
  by (simp add: wr_def)

lemma rd_local: "deref h d = Some D \<Longrightarrow> rd h d k = pr D ! k"
  by (simp add: rd_def)

lemma rd_frame: "frame d h h' \<Longrightarrow> a \<noteq> d \<Longrightarrow> rd h' a k = rd h a k"
  by (simp add: rd_def frame_def)

lemma length_fold_assign: "length (fold (\<lambda>i p. p[f i := g i p]) xs p) = length p"
  by (induction xs arbitrary: p) simp_all

lemma length_fold_assign2:
  "length (fold (\<lambda>j. fold (\<lambda>i p. p[f j i := g j i p]) (ys j)) xs p) = length p"
  by (induction xs arbitrary: p) (simp_all add: length_fold_assign)

lemma fold_assign_inner:
  assumes "b + hi \<le> length p"
  shows "fold (\<lambda>i p. p[b + i := g i]) [lo..<hi] p ! q
           = (if b + lo \<le> q \<and> q < b + hi then g (q - b) else p ! q)"
  using assms
proof (induction hi)
  case 0
  then show ?case by auto
next
  case (Suc hi)
  show ?case
  proof (cases "lo \<le> hi")
    case True
    have len: "b + hi < length (fold (\<lambda>i p. p[b + i := g i]) [lo..<hi] p)"
      using Suc.prems by (simp add: length_fold_assign)
    from True Suc show ?thesis
      by (auto simp: nth_list_update len)
  next
    case False
    then show ?thesis by auto
  qed
qed

lemma block_index_iff:
  fixes m :: nat
  assumes "i0 < m" "hi \<le> m"
  shows "(n * m + lo \<le> j0 * m + i0 \<and> j0 * m + i0 < n * m + hi) \<longleftrightarrow> (j0 = n \<and> lo \<le> i0 \<and> i0 < hi)"
proof (cases "j0 = n")
  case True
  then show ?thesis by simp
next
  case False
  then consider "j0 < n" | "n < j0" by linarith
  then show ?thesis
  proof cases
    case 1
    then have "Suc j0 * m \<le> n * m" by (intro mult_le_mono1) simp
    with assms False show ?thesis by simp
  next
    case 2
    then have "Suc n * m \<le> j0 * m" by (intro mult_le_mono1) simp
    with assms False show ?thesis by simp
  qed
qed

lemma fold_assign_outer:
  assumes "hi \<le> m" "n * m \<le> length p" "i0 < m"
  shows "fold (\<lambda>j. fold (\<lambda>i p. p[j * m + i := g j i]) [lo..<hi]) [0..<n] p ! (j0 * m + i0)
           = (if j0 < n \<and> lo \<le> i0 \<and> i0 < hi then g j0 i0 else p ! (j0 * m + i0))"
  using assms(2)
proof (induction n)
  case 0
  then show ?case by simp
next
  case (Suc n)
  let ?prev = "fold (\<lambda>j. fold (\<lambda>i p. p[j * m + i := g j i]) [lo..<hi]) [0..<n] p"
  have len: "n * m + hi \<le> length ?prev"
    using Suc.prems assms(1) by (simp add: length_fold_assign2)
  have IH: "?prev ! (j0 * m + i0)
           = (if j0 < n \<and> lo \<le> i0 \<and> i0 < hi then g j0 i0 else p ! (j0 * m + i0))"
    using Suc.prems by (intro Suc.IH) simp
  have "fold (\<lambda>j. fold (\<lambda>i p. p[j * m + i := g j i]) [lo..<hi]) [0..<Suc n] p ! (j0 * m + i0)
          = fold (\<lambda>i p. p[n * m + i := g n i]) [lo..<hi] ?prev ! (j0 * m + i0)"
    by simp
  also have "\<dots> = (if n * m + lo \<le> j0 * m + i0 \<and> j0 * m + i0 < n * m + hi
                    then g n (j0 * m + i0 - n * m) else ?prev ! (j0 * m + i0))"
    using len by (rule fold_assign_inner)
  also have "\<dots> = (if j0 < Suc n \<and> lo \<le> i0 \<and> i0 < hi then g j0 i0 else p ! (j0 * m + i0))"
    using block_index_iff [OF assms(3) assms(1), of n lo j0] IH by (auto simp: less_Suc_eq)
  finally show ?case .
qed

section \<open>Properties of \<open>dampPml\<close>\<close>

lemma deref_append_old: "a < length h \<Longrightarrow> deref (h @ xs) a = deref h a"
  by (simp add: deref_def nth_append)

lemma deref_append_new: "deref (h @ [X]) (length h) = X"
  by (simp add: deref_def)

lemma dampPml_heap:
  assumes U: "deref h u = Some U" and V: "deref h v = Some V"
    and M: "mxGetM U = mxGetM V" and N: "mxGetN U = mxGetN V"
  shows "dampPml u v L h =
           Inr (Suc (length h),
                h @ [None, Some \<lparr>dims = [mxGetM U, mxGetN U],
                       pr = d_loops (d0_loops (pr V) (mxGetM U) (mxGetN U) L
                                       (replicate (mxGetM U * mxGetN U) 0))
                              (pr U) (mxGetM U) (mxGetN U) L (replicate (mxGetM U * mxGetN U) 0)\<rparr>])"
proof -
  let ?m = "mxGetM U" and ?n = "mxGetN U"
  let ?Z = "\<lparr>dims = [?m, ?n], pr = replicate (?m * ?n) (0::real)\<rparr>"
  let ?tmp = "length h"
  let ?h1 = "h @ [Some ?Z]"
  let ?Q = "d0_loops (pr V) ?m ?n L (replicate (?m * ?n) 0)"
  let ?h2 = "h @ [Some \<lparr>dims = [?m, ?n], pr = ?Q\<rparr>]"
  let ?res = "Suc (length h)"
  let ?h3 = "?h2 @ [Some ?Z]"
  let ?P = "d_loops ?Q (pr U) ?m ?n L (replicate (?m * ?n) 0)"
  let ?h4 = "h @ [Some \<lparr>dims = [?m, ?n], pr = ?Q\<rparr>, Some \<lparr>dims = [?m, ?n], pr = ?P\<rparr>]"
  have u: "u < length h" and v: "v < length h"
    using U V by (auto dest: deref_Some_length)
  have Z1: "deref ?h1 ?tmp = Some ?Z" by (rule deref_append_new)
  have V1: "rd ?h1 v k = pr V ! k" for k
    using v V by (simp add: rd_def deref_append_old)
  have loop1: "fold (\<lambda>j. fold (\<lambda>i h.
                  wr h ?tmp (j * ?m + i) (- (3 * rd h v (j * ?m + i)) / (2 * L) * ln (1 / 1000000)))
                  [0..<?m]) [0..<?n] ?h1 = ?h2"
  proof -
    have "fold (\<lambda>j. fold (\<lambda>i h.
                  wr h ?tmp (j * ?m + i) (- (3 * rd h v (j * ?m + i)) / (2 * L) * ln (1 / 1000000)))
                  [0..<?m]) [0..<?n] ?h1
          = ?h1[?tmp := Some (?Z\<lparr>pr := fold (\<lambda>j. fold (\<lambda>i p.
                  p[j * ?m + i := - (3 * pr V ! (j * ?m + i)) / (2 * L) * ln (1 / 1000000)])
                  [0..<?m]) [0..<?n] (pr ?Z)\<rparr>)]"
    proof (rule heap_fold_local2 [OF Z1])
      fix j i h' D'
      assume f: "frame ?tmp ?h1 h'" and D': "deref h' ?tmp = Some D'"
      have "rd h' v (j * ?m + i) = pr V ! (j * ?m + i)"
        using rd_frame [OF f, of v] v V1 by simp
      then show "wr h' ?tmp (j * ?m + i) (- (3 * rd h' v (j * ?m + i)) / (2 * L) * ln (1 / 1000000))
            = h'[?tmp := Some (D'\<lparr>pr := (pr D')[j * ?m + i :=
                   - (3 * pr V ! (j * ?m + i)) / (2 * L) * ln (1 / 1000000)]\<rparr>)]"
        by (simp add: wr_local [OF D'])
    qed
    then show ?thesis by (simp add: d0_loops_def)
  qed
  have Z3: "deref ?h3 ?res = Some ?Z"
    using deref_append_new [of ?h2 "Some ?Z"] by simp
  have U3: "rd ?h3 u k = pr U ! k" for k
    using u U by (simp add: rd_def deref_def nth_append)
  have P3: "rd ?h3 ?tmp k = ?Q ! k" for k
    by (simp add: rd_def deref_def nth_append)
  have loop2: "fold (\<lambda>j. fold (\<lambda>i h.
                  wr h ?res (j * ?m + i)
                    (rd h ?tmp (j * ?m + i) * (rd h u (j * ?m + i) / L) * (rd h u (j * ?m + i) / L)))
                  [0..<?m]) [0..<?n] ?h3 = ?h4"
  proof -
    have "fold (\<lambda>j. fold (\<lambda>i h.
                  wr h ?res (j * ?m + i)
                    (rd h ?tmp (j * ?m + i) * (rd h u (j * ?m + i) / L) * (rd h u (j * ?m + i) / L)))
                  [0..<?m]) [0..<?n] ?h3
          = ?h3[?res := Some (?Z\<lparr>pr := fold (\<lambda>j. fold (\<lambda>i p.
                  p[j * ?m + i := ?Q ! (j * ?m + i) * (pr U ! (j * ?m + i) / L) * (pr U ! (j * ?m + i) / L)])
                  [0..<?m]) [0..<?n] (pr ?Z)\<rparr>)]"
    proof (rule heap_fold_local2 [OF Z3])
      fix j i h' D'
      assume f: "frame ?res ?h3 h'" and D': "deref h' ?res = Some D'"
      have "rd h' u (j * ?m + i) = pr U ! (j * ?m + i)"
        using rd_frame [OF f, of u] u U3 by simp
      moreover have "rd h' ?tmp (j * ?m + i) = ?Q ! (j * ?m + i)"
        using rd_frame [OF f, of ?tmp] P3 by simp
      ultimately show "wr h' ?res (j * ?m + i)
             (rd h' ?tmp (j * ?m + i) * (rd h' u (j * ?m + i) / L) * (rd h' u (j * ?m + i) / L))
            = h'[?res := Some (D'\<lparr>pr := (pr D')[j * ?m + i :=
                   ?Q ! (j * ?m + i) * (pr U ! (j * ?m + i) / L) * (pr U ! (j * ?m + i) / L)]\<rparr>)]"
        by (simp add: wr_local [OF D'])
    qed
    also have "\<dots> = ?h4"
      by (simp add: d_loops_def list_update_append)
    finally show ?thesis .
  qed
  have destroy: "mxDestroyArray ?tmp ?h4 = h @ [None, Some \<lparr>dims = [?m, ?n], pr = ?P\<rparr>]"
    by (simp add: mxDestroyArray_def list_update_append)
  have c1: "mxCreateDoubleMatrix ?m ?n h = (?tmp, ?h1)"
    by (simp add: mxCreateDoubleMatrix_def)
  have c2: "mxCreateDoubleMatrix ?m ?n ?h2 = (?res, ?h3)"
    by (simp add: mxCreateDoubleMatrix_def)
  show ?thesis
    unfolding dampPml_def
    by (simp only: U V M [symmetric] N [symmetric] Let_def c1 c2 loop1 loop2 destroy
          prod.case option.case simp_thms if_False)
qed


lemma flat_index:
  fixes m :: nat
  assumes "k < m * n"
  shows "k div m < n" and "k mod m < m" and "k div m * m + k mod m = k"
proof -
  from assms have m: "0 < m" by (cases m) simp_all
  from assms have "k < n * m" by (simp add: mult.commute)
  then show "k div m < n" using m by (simp add: less_mult_imp_div_less)
  show "k mod m < m" using m by simp
  show "k div m * m + k mod m = k" by simp
qed

lemma d0_loops_nth:
  assumes "k < m * n"
  shows "d0_loops pv m n L (replicate (m * n) 0) ! k = - (3 * pv ! k) / (2 * L) * ln (1 / 1000000)"
proof -
  note fi = flat_index [OF assms]
  have "d0_loops pv m n L (replicate (m * n) 0) ! (k div m * m + k mod m)
          = (if k div m < n \<and> 0 \<le> k mod m \<and> k mod m < m
             then - (3 * pv ! (k div m * m + k mod m)) / (2 * L) * ln (1 / 1000000)
             else replicate (m * n) 0 ! (k div m * m + k mod m))"
    unfolding d0_loops_def
    by (rule fold_assign_outer) (simp_all add: fi mult.commute)
  then show ?thesis by (simp only: fi simp_thms if_True le0)
qed

lemma d_loops_nth:
  assumes "k < m * n"
  shows "d_loops pd0 pu m n L (replicate (m * n) 0) ! k = pd0 ! k * (pu ! k / L) * (pu ! k / L)"
proof -
  note fi = flat_index [OF assms]
  have "d_loops pd0 pu m n L (replicate (m * n) 0) ! (k div m * m + k mod m)
          = (if k div m < n \<and> 0 \<le> k mod m \<and> k mod m < m
             then pd0 ! (k div m * m + k mod m) * (pu ! (k div m * m + k mod m) / L)
                    * (pu ! (k div m * m + k mod m) / L)
             else replicate (m * n) 0 ! (k div m * m + k mod m))"
    unfolding d_loops_def
    by (rule fold_assign_outer) (simp_all add: fi mult.commute)
  then show ?thesis by (simp only: fi simp_thms if_True le0)
qed

lemma length_d_loops: "length (d_loops pd0 pu m n L p) = length p"
  unfolding d_loops_def by (rule length_fold_assign2)

lemma wf_mxArray_size: "wf_mxArray A \<Longrightarrow> mxGetM A * mxGetN A = length (pr A)"
  by (cases "dims A") (simp_all add: wf_mxArray_def mxGetM_def mxGetN_def)

text \<open>What \<open>dampPml\<close> returns and what it leaves behind, for two live arrays of one shape.\<close>

lemma dampPml_closed:
  assumes U: "deref h u = Some U" and V: "deref h v = Some V"
    and wf: "wf_mxArray U" and shape: "dims V = dims U"
  shows "\<exists>D. dampPml u v L h = Inr (Suc (length h), h @ [None, Some D])
           \<and> dims D = [mxGetM U, mxGetN U]
           \<and> length (pr D) = length (pr U)
           \<and> (\<forall>k<length (pr U).
                 pr D ! k = (- (3 * pr V ! k) / (2 * L) * ln (1 / 1000000)) * (pr U ! k / L)\<^sup>2)"
proof -
  let ?m = "mxGetM U" and ?n = "mxGetN U"
  let ?Q = "d0_loops (pr V) ?m ?n L (replicate (?m * ?n) 0)"
  let ?D = "\<lparr>dims = [?m, ?n], pr = d_loops ?Q (pr U) ?m ?n L (replicate (?m * ?n) 0)\<rparr>"
  have M: "mxGetM U = mxGetM V" and N: "mxGetN U = mxGetN V"
    using shape by (simp_all add: mxGetM_def mxGetN_def)
  have sz: "?m * ?n = length (pr U)" using wf by (rule wf_mxArray_size)
  have "dampPml u v L h = Inr (Suc (length h), h @ [None, Some ?D])"
    using U V M N by (rule dampPml_heap)
  moreover have "length (pr ?D) = length (pr U)"
    by (simp add: length_d_loops sz)
  moreover have "\<forall>k<length (pr U).
       pr ?D ! k = (- (3 * pr V ! k) / (2 * L) * ln (1 / 1000000)) * (pr U ! k / L)\<^sup>2"
  proof (intro allI impI)
    fix k assume "k < length (pr U)"
    then have k: "k < ?m * ?n" by (simp add: sz)
    show "pr ?D ! k = (- (3 * pr V ! k) / (2 * L) * ln (1 / 1000000)) * (pr U ! k / L)\<^sup>2"
      by (simp add: d_loops_nth [OF k] d0_loops_nth [OF k] power2_eq_square)
  qed
  ultimately show ?thesis by (intro exI [of _ ?D] conjI) simp_all
qed



lemma deref_two_new:
  "deref (h @ [X, Y]) a =
     (if a < length h then deref h a else if a = length h then X
      else if a = Suc (length h) then Y else None)"
  by (auto simp: deref_def nth_append nth_Cons')

lemma deref_beyond: "length h \<le> a \<Longrightarrow> deref h a = None"
  by (simp add: deref_def)

text \<open>
  Claim C7. For two live, well-formed arrays \<open>u\<close> and \<open>v\<close> of one shape and any width
  \<open>L\<close>, \<open>dampPml\<close> returns a new array of that shape whose value at each point is
  \<open>d0 * (u/L)\<^sup>2\<close> with \<open>d0 = -(3*v)/(2*L) * ln R\<close> and \<open>R = 1e-6\<close>. The call changes
  no array that existed before it, \<open>u\<close> and \<open>v\<close> included, and of the two arrays it
  allocates only the result is still alive afterwards.
\<close>

theorem dampPml_profile:
  assumes "deref h u = Some U" and "deref h v = Some V"
    and "wf_mxArray U" and "wf_mxArray V" and "dims V = dims U"
  shows "\<exists>d h' D. dampPml u v L h = Inr (d, h')
           \<and> deref h d = None \<and> deref h' d = Some D
           \<and> dims D = [mxGetM U, mxGetN U] \<and> length (pr D) = length (pr U)
           \<and> (\<forall>k<length (pr U).
                 pr D ! k = (- (3 * pr V ! k) / (2 * L) * ln (1 / 1000000)) * (pr U ! k / L)\<^sup>2)
           \<and> deref h' u = Some U \<and> deref h' v = Some V
           \<and> (\<forall>a<length h. deref h' a = deref h a)
           \<and> (\<forall>a. length h \<le> a \<and> a \<noteq> d \<longrightarrow> deref h' a = None)"
proof -
  from dampPml_closed [OF assms(1,2,3,5), of L]
  obtain D where r: "dampPml u v L h = Inr (Suc (length h), h @ [None, Some D])"
    and dm: "dims D = [mxGetM U, mxGetN U]" and len: "length (pr D) = length (pr U)"
    and val: "\<forall>k<length (pr U).
                 pr D ! k = (- (3 * pr V ! k) / (2 * L) * ln (1 / 1000000)) * (pr U ! k / L)\<^sup>2"
    by (elim exE conjE)
  have u: "u < length h" and v: "v < length h"
    using assms(1,2) by (auto dest: deref_Some_length)
  have fresh: "deref h (Suc (length h)) = None" by (simp add: deref_beyond)
  have new: "deref (h @ [None, Some D]) (Suc (length h)) = Some D"
    by (simp add: deref_two_new)
  have old: "\<forall>a<length h. deref (h @ [None, Some D]) a = deref h a"
    by (simp add: deref_two_new)
  have rest: "\<forall>a. length h \<le> a \<and> a \<noteq> Suc (length h) \<longrightarrow> deref (h @ [None, Some D]) a = None"
    by (simp add: deref_two_new)
  have keepu: "deref (h @ [None, Some D]) u = Some U" and keepv: "deref (h @ [None, Some D]) v = Some V"
    using u v assms(1,2) by (simp_all add: deref_two_new)
  show ?thesis
    by (intro exI [of _ "Suc (length h)"] exI [of _ "h @ [None, Some D]"] exI [of _ D] conjI
          r fresh new dm len val keepu keepv old rest)
qed

theorem dampPml_profile_witness:
  "\<exists>d h' D. dampPml 0 1 2 [Some \<lparr>dims = [1, 2], pr = [1, 2]\<rparr>, Some \<lparr>dims = [1, 2], pr = [3, 4]\<rparr>]
               = Inr (d, h')
     \<and> deref h' d = Some D \<and> dims D = [1, 2]
     \<and> pr D ! 1 = - 3 * ln (1 / 1000000)
     \<and> deref h' 0 = Some \<lparr>dims = [1, 2], pr = [1, 2]\<rparr>
     \<and> deref h' 1 = Some \<lparr>dims = [1, 2], pr = [3, 4]\<rparr>"
proof -
  let ?U = "\<lparr>dims = [1, 2], pr = [1, 2]\<rparr>" and ?V = "\<lparr>dims = [1, 2], pr = [3, 4]\<rparr>"
  let ?h = "[Some ?U, Some ?V]"
  have a: "deref ?h 0 = Some ?U" and b: "deref ?h 1 = Some ?V"
    and c: "wf_mxArray ?U" and d: "wf_mxArray ?V" and e: "dims ?V = dims ?U"
    by (simp_all add: deref_def wf_mxArray_def)
  from dampPml_profile [OF a b c d e, of 2]
  obtain r h' D where "dampPml 0 1 2 ?h = Inr (r, h')" and "deref h' r = Some D"
    and "dims D = [mxGetM ?U, mxGetN ?U]"
    and val: "\<forall>k<length (pr ?U).
                 pr D ! k = (- (3 * pr ?V ! k) / (2 * 2) * ln (1 / 1000000)) * (pr ?U ! k / 2)\<^sup>2"
    and "deref h' 0 = Some ?U" and "deref h' 1 = Some ?V"
    by (elim exE conjE)
  moreover from val have "pr D ! 1 = - 3 * ln (1 / 1000000)" by simp
  ultimately show ?thesis
    by (intro exI [of _ r] exI [of _ h'] exI [of _ D]) (simp add: mxGetM_def mxGetN_def)
qed

lemma ln_R_negative: "ln (1 / 1000000 :: real) < 0"
  by (rule ln_less_zero) simp_all

lemma damping_coeff_nonneg:
  fixes v L :: real
  assumes "0 \<le> v" "0 < L"
  shows "0 \<le> - (3 * v) / (2 * L) * ln (1 / 1000000)"
proof -
  have a: "- (3 * v) / (2 * L) \<le> 0" using assms by (simp add: divide_nonpos_pos)
  have b: "ln (1 / 1000000 :: real) \<le> 0" using ln_R_negative by (rule less_imp_le)
  from a b show ?thesis by (rule mult_nonpos_nonpos)
qed

lemma damping_nonneg:
  fixes u v L :: real
  assumes "0 \<le> v" "0 < L"
  shows "0 \<le> (- (3 * v) / (2 * L) * ln (1 / 1000000)) * (u / L)\<^sup>2"
  using damping_coeff_nonneg [OF assms] zero_le_power2 by (rule mult_nonneg_nonneg)

lemma damping_mono:
  fixes u u' v L :: real
  assumes "0 \<le> v" "0 < L" "\<bar>u\<bar> \<le> \<bar>u'\<bar>"
  shows "(- (3 * v) / (2 * L) * ln (1 / 1000000)) * (u / L)\<^sup>2
           \<le> (- (3 * v) / (2 * L) * ln (1 / 1000000)) * (u' / L)\<^sup>2"
proof -
  have "\<bar>u / L\<bar> \<le> \<bar>u' / L\<bar>" using assms by (simp add: divide_right_mono)
  then have "\<bar>u / L\<bar>\<^sup>2 \<le> \<bar>u' / L\<bar>\<^sup>2" by (intro power_mono) simp_all
  then have "(u / L)\<^sup>2 \<le> (u' / L)\<^sup>2" by (simp only: power2_abs)
  then show ?thesis
    using damping_coeff_nonneg [OF assms(1,2)] by (rule mult_left_mono)
qed


text \<open>
  Claim C8, amended. For \<open>L > 0\<close> the damping that \<open>dampPml\<close> returns is zero where
  \<open>u = 0\<close>, non-negative where \<open>v \<ge> 0\<close>, and non-decreasing in \<open>\<bar>u\<bar>\<close> between points of
  equal velocity \<open>v \<ge> 0\<close>. Only the weak order is stated: at \<open>v = 0\<close> the damping is
  constant, and in the doubles of the source two nearby values of \<open>\<bar>u\<bar>\<close> can round to one
  damping value.
\<close>

theorem dampPml_monotone:
  assumes "deref h u = Some U" and "deref h v = Some V"
    and "wf_mxArray U" and "wf_mxArray V" and "dims V = dims U" and "0 < L"
  shows "\<exists>d h' D. dampPml u v L h = Inr (d, h') \<and> deref h' d = Some D
           \<and> length (pr D) = length (pr U)
           \<and> (\<forall>k<length (pr U). pr U ! k = 0 \<longrightarrow> pr D ! k = 0)
           \<and> (\<forall>k<length (pr U). 0 \<le> pr V ! k \<longrightarrow> 0 \<le> pr D ! k)
           \<and> (\<forall>k<length (pr U). \<forall>k'<length (pr U).
                 0 \<le> pr V ! k \<and> pr V ! k' = pr V ! k \<and> \<bar>pr U ! k\<bar> \<le> \<bar>pr U ! k'\<bar>
                 \<longrightarrow> pr D ! k \<le> pr D ! k')"
proof -
  from dampPml_closed [OF assms(1,2,3,5), of L]
  obtain D where r: "dampPml u v L h = Inr (Suc (length h), h @ [None, Some D])"
    and len: "length (pr D) = length (pr U)"
    and val: "\<And>k. k < length (pr U) \<Longrightarrow>
                 pr D ! k = (- (3 * pr V ! k) / (2 * L) * ln (1 / 1000000)) * (pr U ! k / L)\<^sup>2"
    by (elim exE conjE) blast
  have new: "deref (h @ [None, Some D]) (Suc (length h)) = Some D"
    by (simp add: deref_two_new)
  have z: "\<forall>k<length (pr U). pr U ! k = 0 \<longrightarrow> pr D ! k = 0"
    by (simp add: val)
  have nn: "\<forall>k<length (pr U). 0 \<le> pr V ! k \<longrightarrow> 0 \<le> pr D ! k"
  proof (intro allI impI)
    fix k
    assume k: "k < length (pr U)" and "0 \<le> pr V ! k"
    then have "0 \<le> (- (3 * pr V ! k) / (2 * L) * ln (1 / 1000000)) * (pr U ! k / L)\<^sup>2"
      using assms(6) by (intro damping_nonneg)
    then show "0 \<le> pr D ! k" by (simp only: val [OF k])
  qed
  have mono: "\<forall>k<length (pr U). \<forall>k'<length (pr U).
                 0 \<le> pr V ! k \<and> pr V ! k' = pr V ! k \<and> \<bar>pr U ! k\<bar> \<le> \<bar>pr U ! k'\<bar>
                 \<longrightarrow> pr D ! k \<le> pr D ! k'"
  proof (intro allI impI)
    fix k k'
    assume k: "k < length (pr U)" and k': "k' < length (pr U)"
      and h: "0 \<le> pr V ! k \<and> pr V ! k' = pr V ! k \<and> \<bar>pr U ! k\<bar> \<le> \<bar>pr U ! k'\<bar>"
    then have "(- (3 * pr V ! k) / (2 * L) * ln (1 / 1000000)) * (pr U ! k / L)\<^sup>2
                 \<le> (- (3 * pr V ! k) / (2 * L) * ln (1 / 1000000)) * (pr U ! k' / L)\<^sup>2"
      using assms(6) by (intro damping_mono) simp_all
    with h show "pr D ! k \<le> pr D ! k'" by (simp add: val [OF k] val [OF k'])
  qed
  show ?thesis
    by (intro exI [of _ "Suc (length h)"] exI [of _ "h @ [None, Some D]"] exI [of _ D] conjI
          r new len z nn mono)
qed

theorem dampPml_monotone_witness:
  "\<exists>d h' D. dampPml 0 1 2 [Some \<lparr>dims = [2, 1], pr = [1, - 3]\<rparr>, Some \<lparr>dims = [2, 1], pr = [5, 5]\<rparr>]
               = Inr (d, h')
     \<and> deref h' d = Some D \<and> 0 \<le> pr D ! 0 \<and> pr D ! 0 \<le> pr D ! 1"
proof -
  let ?U = "\<lparr>dims = [2, 1], pr = [1, - 3]\<rparr>" and ?V = "\<lparr>dims = [2, 1], pr = [5, 5]\<rparr>"
  let ?h = "[Some ?U, Some ?V]"
  have a: "deref ?h 0 = Some ?U" and b: "deref ?h 1 = Some ?V"
    and c: "wf_mxArray ?U" and d: "wf_mxArray ?V" and e: "dims ?V = dims ?U"
    and f: "(0::real) < 2"
    by (simp_all add: deref_def wf_mxArray_def)
  from dampPml_monotone [OF a b c d e f]
  obtain r h' D where 1: "dampPml 0 1 2 ?h = Inr (r, h')" and 2: "deref h' r = Some D"
    and nn: "\<forall>k<length (pr ?U). 0 \<le> pr ?V ! k \<longrightarrow> 0 \<le> pr D ! k"
    and mono: "\<forall>k<length (pr ?U). \<forall>k'<length (pr ?U).
                 0 \<le> pr ?V ! k \<and> pr ?V ! k' = pr ?V ! k \<and> \<bar>pr ?U ! k\<bar> \<le> \<bar>pr ?U ! k'\<bar>
                 \<longrightarrow> pr D ! k \<le> pr D ! k'"
    by (elim exE conjE)
  from nn have 3: "0 \<le> pr D ! 0" by simp
  from mono have "(0::nat) < 2 \<longrightarrow> (1::nat) < 2 \<longrightarrow> pr D ! 0 \<le> pr D ! 1"
    by (auto dest!: spec [of _ 0] spec [of _ "1::nat"])
  then have 4: "pr D ! 0 \<le> pr D ! 1" by simp
  from 1 2 3 4 show ?thesis by (intro exI [of _ r] exI [of _ h'] exI [of _ D] conjI)
qed

text \<open>
  Claim C8 as stated fails where the velocity is zero: with \<open>v = 0\<close> and \<open>L = 1\<close> the points
  \<open>u = 1\<close> and \<open>u = 2\<close> both get the damping 0.
\<close>

theorem dampPml_zero_velocity_counterexample:
  "dampPml 0 1 1 [Some \<lparr>dims = [2, 1], pr = [1, 2]\<rparr>, Some \<lparr>dims = [2, 1], pr = [0, 0]\<rparr>]
     = Inr (3, [Some \<lparr>dims = [2, 1], pr = [1, 2]\<rparr>, Some \<lparr>dims = [2, 1], pr = [0, 0]\<rparr>,
                None, Some \<lparr>dims = [2, 1], pr = [0, 0]\<rparr>])
   \<and> \<bar>1 :: real\<bar> < \<bar>2\<bar> \<and> \<not> ([0, 0 :: real] ! 0 < [0, 0] ! 1)"
proof -
  let ?U = "\<lparr>dims = [2, 1], pr = [1, 2]\<rparr>" and ?V = "\<lparr>dims = [2, 1], pr = [0, 0]\<rparr>"
  let ?h = "[Some ?U, Some ?V]"
  have a: "deref ?h 0 = Some ?U" and b: "deref ?h 1 = Some ?V"
    by (simp_all add: deref_def)
  have m: "mxGetM ?U = 2" "mxGetN ?U = 1" "mxGetM ?V = 2" "mxGetN ?V = 1"
    by (simp_all add: mxGetM_def mxGetN_def)
  have two: "[0..<2] = [0, 1]" by code_simp
  have "dampPml 0 1 1 ?h =
          Inr (Suc (length ?h), ?h @ [None, Some \<lparr>dims = [mxGetM ?U, mxGetN ?U],
                 pr = d_loops (d0_loops (pr ?V) (mxGetM ?U) (mxGetN ?U) 1
                                 (replicate (mxGetM ?U * mxGetN ?U) 0))
                        (pr ?U) (mxGetM ?U) (mxGetN ?U) 1 (replicate (mxGetM ?U * mxGetN ?U) 0)\<rparr>])"
    by (rule dampPml_heap [OF a b]) (simp_all only: m)
  also have "\<dots> = Inr (3, ?h @ [None, Some \<lparr>dims = [2, 1], pr = [0, 0]\<rparr>])"
    by (simp add: mxGetM_def mxGetN_def d_loops_def d0_loops_def two numeral_2_eq_2)
  finally show ?thesis by simp
qed

section \<open>Properties of the damping profile along \<open>z\<close>\<close>

lemma dampPml_raw_nth:
  assumes "k < m * n"
  shows "dampPml_raw pu pv m n L ! k
           = (- (3 * pv ! k) / (2 * L) * ln (1 / 1000000)) * (pu ! k / L) * (pu ! k / L)"
  by (simp add: dampPml_raw_def Let_def d_loops_nth [OF assms] d0_loops_nth [OF assms])

lemma fold_assign_grid:
  assumes "j < n" "i < m" "length p = m * n"
  shows "fold (\<lambda>j. fold (\<lambda>i p. p[j * m + i := g j i]) [lo..<hi]) [0..<n] p ! (j * m + i)
           = (if lo \<le> i \<and> i < hi \<and> hi \<le> m then g j i else
              if hi \<le> m then p ! (j * m + i) else
              fold (\<lambda>j. fold (\<lambda>i p. p[j * m + i := g j i]) [lo..<hi]) [0..<n] p ! (j * m + i))"
proof (cases "hi \<le> m")
  case True
  have "n * m \<le> length p" using assms(3) by (simp add: mult.commute)
  from fold_assign_outer [OF True this assms(2), of g lo j] assms(1) True
  show ?thesis by simp
next
  case False
  then show ?thesis by simp
qed

lemma zDamp_values:
  fixes dz :: real and vel :: "real list"
  assumes b: "boundary \<le> nz" and j: "j < count" and i: "i < nz"
  defines "pu \<equiv> fold (\<lambda>j. fold (\<lambda>i p. p[j * boundary + i := (real i + 1) * dz]) [0..<boundary])
                 [0..<count] (replicate (boundary * count) 0)"
    and "pv \<equiv> fold (\<lambda>j. fold (\<lambda>i p.
                       p[j * boundary + i := vel ! (j * nz + (nz - boundary + i))])
                     [0..<boundary])
                 [0..<count] (replicate (boundary * count) 0)"
  defines "pzd \<equiv> fold (\<lambda>j. fold (\<lambda>i p.
                       p[j * nz + i := dampPml_raw pu pv boundary count (real boundary * dz)
                                         ! (j * boundary + i - (nz - boundary))])
                     [nz - boundary..<nz])
                 [0..<count] (replicate (nz * count) 0)"
  shows "pzd ! (j * nz + i) =
           (if i < nz - boundary then 0
            else (- (3 * vel ! (j * nz + i)) / (2 * (real boundary * dz)) * ln (1 / 1000000))
                   * ((real (i - (nz - boundary)) + 1) * dz / (real boundary * dz))\<^sup>2)"
proof (cases "i < nz - boundary")
  case True
  have "pzd ! (j * nz + i) = replicate (nz * count) 0 ! (j * nz + i)"
    unfolding pzd_def using True j i
    by (subst fold_assign_grid) simp_all
  moreover have "j * nz + i < nz * count"
  proof -
    have "j * nz + i < Suc j * nz" using i by simp
    also have "\<dots> \<le> count * nz" using j by (intro mult_le_mono1) simp
    finally show ?thesis by (simp add: mult.commute)
  qed
  ultimately show ?thesis using True by simp
next
  case False
  define i' where "i' = i - (nz - boundary)"
  have i': "i' < boundary" and ii: "nz - boundary + i' = i"
    using False i b by (simp_all add: i'_def)
  have idx: "j * boundary + i - (nz - boundary) = j * boundary + i'"
    using False by (simp add: i'_def)
  have k: "j * boundary + i' < boundary * count"
  proof -
    have "j * boundary + i' < Suc j * boundary" using i' by simp
    also have "\<dots> \<le> count * boundary" using j by (intro mult_le_mono1) simp
    finally show ?thesis by (simp add: mult.commute)
  qed
  have puv: "pu ! (j * boundary + i') = (real i' + 1) * dz"
    unfolding pu_def using j i' by (subst fold_assign_grid) simp_all
  have pvv: "pv ! (j * boundary + i') = vel ! (j * nz + i)"
    unfolding pv_def using j i' ii by (subst fold_assign_grid) simp_all
  have "pzd ! (j * nz + i) = dampPml_raw pu pv boundary count (real boundary * dz)
                                         ! (j * boundary + i - (nz - boundary))"
    unfolding pzd_def using False j i
    by (subst fold_assign_grid) simp_all
  also have "\<dots> = (- (3 * vel ! (j * nz + i)) / (2 * (real boundary * dz)) * ln (1 / 1000000))
                   * ((real i' + 1) * dz / (real boundary * dz)) * ((real i' + 1) * dz / (real boundary * dz))"
    by (simp only: idx dampPml_raw_nth [OF k] puv pvv)
  finally show ?thesis using False by (simp add: i'_def power2_eq_square)
qed


lemma grid_index_less:
  fixes m :: nat
  assumes "j < n" "i < m"
  shows "j * m + i < m * n"
proof -
  have "j * m + i < Suc j * m" using assms(2) by simp
  also have "\<dots> \<le> n * m" using assms(1) by (intro mult_le_mono1) simp
  finally show ?thesis by (simp add: mult.commute)
qed

text \<open>
  Claim C9. With \<open>boundary \<le> nz\<close>, for every worker (every \<open>count\<close>) the damping along
  \<open>z\<close> is zero in each row \<open>i < nz - boundary\<close>; in the lowest \<open>boundary\<close> rows it is
  the quadratic profile of the distance \<open>(i - (nz - boundary) + 1) * dz\<close> and the local velocity,
  with width \<open>boundary * dz\<close>; the decay factor is \<open>exp (- damping * dt)\<close> at every point
  and therefore 1 outside the bottom padding.
\<close>

theorem mexFunction_zDamp_profile:
  fixes dz dt :: real
  assumes "boundary \<le> nz" and "length pVelocityModel_local = nz * count"
  shows "\<exists>pzDamp_local pzb_local.
           mexFunction_zDamp nz count boundary dz dt pVelocityModel_local
             = Inr (pzDamp_local, pzb_local)
           \<and> length pzDamp_local = nz * count \<and> length pzb_local = nz * count
           \<and> (\<forall>j<count. \<forall>i<nz.
                 pzDamp_local ! (j * nz + i) =
                   (if i < nz - boundary then 0
                    else (- (3 * pVelocityModel_local ! (j * nz + i)) / (2 * (real boundary * dz))
                            * ln (1 / 1000000))
                         * ((real (i - (nz - boundary)) + 1) * dz / (real boundary * dz))\<^sup>2)
                 \<and> pzb_local ! (j * nz + i) = exp (- pzDamp_local ! (j * nz + i) * dt)
                 \<and> (i < nz - boundary \<longrightarrow> pzb_local ! (j * nz + i) = 1))"
proof -
  define pu where "pu = fold (\<lambda>j. fold (\<lambda>i p. p[j * boundary + i := (real i + 1) * dz]) [0..<boundary])
                 [0..<count] (replicate (boundary * count) 0)"
  define pv where "pv = fold (\<lambda>j. fold (\<lambda>i p.
                       p[j * boundary + i := pVelocityModel_local ! (j * nz + (nz - boundary + i))])
                     [0..<boundary])
                 [0..<count] (replicate (boundary * count) 0)"
  define pzd where "pzd = fold (\<lambda>j. fold (\<lambda>i p.
                       p[j * nz + i := dampPml_raw pu pv boundary count (real boundary * dz)
                                         ! (j * boundary + i - (nz - boundary))])
                     [nz - boundary..<nz])
                 [0..<count] (replicate (nz * count) 0)"
  define pzb where "pzb = fold (\<lambda>j. fold (\<lambda>i p. p[j * nz + i := exp (- pzd ! (j * nz + i) * dt)])
                     [0..<nz])
                 [0..<count] (replicate (nz * count) 0)"
  have run: "mexFunction_zDamp nz count boundary dz dt pVelocityModel_local = Inr (pzd, pzb)"
    using assms(1) by (simp add: mexFunction_zDamp_def Let_def pu_def pv_def pzd_def pzb_def)
  have l1: "length pzd = nz * count" by (simp add: pzd_def length_fold_assign2)
  have l2: "length pzb = nz * count" by (simp add: pzb_def length_fold_assign2)
  have vals: "\<forall>j<count. \<forall>i<nz.
                 pzd ! (j * nz + i) =
                   (if i < nz - boundary then 0
                    else (- (3 * pVelocityModel_local ! (j * nz + i)) / (2 * (real boundary * dz))
                            * ln (1 / 1000000))
                         * ((real (i - (nz - boundary)) + 1) * dz / (real boundary * dz))\<^sup>2)
                 \<and> pzb ! (j * nz + i) = exp (- pzd ! (j * nz + i) * dt)
                 \<and> (i < nz - boundary \<longrightarrow> pzb ! (j * nz + i) = 1)"
  proof (intro allI impI)
    fix j i
    assume j: "j < count" and i: "i < nz"
    have d: "pzd ! (j * nz + i) =
                   (if i < nz - boundary then 0
                    else (- (3 * pVelocityModel_local ! (j * nz + i)) / (2 * (real boundary * dz))
                            * ln (1 / 1000000))
                         * ((real (i - (nz - boundary)) + 1) * dz / (real boundary * dz))\<^sup>2)"
      unfolding pzd_def pu_def pv_def using assms(1) j i by (rule zDamp_values)
    have e: "pzb ! (j * nz + i) = exp (- pzd ! (j * nz + i) * dt)"
      unfolding pzb_def using j i by (subst fold_assign_grid) simp_all
    have "i < nz - boundary \<longrightarrow> pzb ! (j * nz + i) = 1"
      using d e by simp
    with d e show "pzd ! (j * nz + i) =
                   (if i < nz - boundary then 0
                    else (- (3 * pVelocityModel_local ! (j * nz + i)) / (2 * (real boundary * dz))
                            * ln (1 / 1000000))
                         * ((real (i - (nz - boundary)) + 1) * dz / (real boundary * dz))\<^sup>2)
                 \<and> pzb ! (j * nz + i) = exp (- pzd ! (j * nz + i) * dt)
                 \<and> (i < nz - boundary \<longrightarrow> pzb ! (j * nz + i) = 1)"
      by (intro conjI)
  qed
  show ?thesis
    by (intro exI [of _ pzd] exI [of _ pzb] conjI run l1 l2 vals)
qed

theorem mexFunction_zDamp_profile_witness:
  "\<exists>pzDamp_local pzb_local.
      mexFunction_zDamp 3 1 1 2 5 [7, 8, 9] = Inr (pzDamp_local, pzb_local)
      \<and> pzDamp_local ! 0 = 0 \<and> pzDamp_local ! 1 = 0
      \<and> pzDamp_local ! 2 = - (27 / 4) * ln (1 / 1000000)
      \<and> pzb_local ! 0 = 1 \<and> pzb_local ! 1 = 1
      \<and> pzb_local ! 2 = exp (- pzDamp_local ! 2 * 5)"
proof -
  have a: "(1::nat) \<le> 3" and b: "length [7, 8, 9 :: real] = 3 * 1" by simp_all
  from mexFunction_zDamp_profile [OF a b, of 2 5]
  obtain pzd pzb where run: "mexFunction_zDamp 3 1 1 2 5 [7, 8, 9] = Inr (pzd, pzb)"
    and vals: "\<forall>j<1. \<forall>i<3.
                 pzd ! (j * 3 + i) =
                   (if i < 3 - 1 then 0
                    else (- (3 * [7, 8, 9] ! (j * 3 + i)) / (2 * (real 1 * 2))
                            * ln (1 / 1000000))
                         * ((real (i - (3 - 1)) + 1) * 2 / (real 1 * 2))\<^sup>2)
                 \<and> pzb ! (j * 3 + i) = exp (- pzd ! (j * 3 + i) * 5)
                 \<and> (i < 3 - 1 \<longrightarrow> pzb ! (j * 3 + i) = 1)"
    by (elim exE conjE)
  from vals have v: "\<And>i. i < 3 \<Longrightarrow>
                 pzd ! i =
                   (if i < 2 then 0
                    else (- (3 * [7, 8, 9] ! i) / 4 * ln (1 / 1000000))
                         * ((real (i - 2) + 1))\<^sup>2)
                 \<and> pzb ! i = exp (- pzd ! i * 5)
                 \<and> (i < 2 \<longrightarrow> pzb ! i = 1)"
    by simp
  from v [of 0] v [of 1] v [of 2] run show ?thesis
    by (intro exI [of _ pzd] exI [of _ pzb]) simp
qed

section \<open>Properties of \<open>diffOperator\<close>\<close>


lemma fold_counters:
  "fold (\<lambda>x (c, y, s). (c + 1, y + 1, body x c y s)) [a..<b] (c0, y0, s)
     = (c0 + (b - a), y0 + (b - a), fold (\<lambda>t. body (a + t) (c0 + t) (y0 + t)) [0..<b - a] s)"
proof (induction b)
  case 0
  then show ?case by simp
next
  case (Suc b)
  show ?case
  proof (cases "a \<le> b")
    case True
    then have "Suc b - a = Suc (b - a)" by simp
    with True Suc show ?thesis by simp
  next
    case False
    then show ?thesis by simp
  qed
qed

lemma heap_fold_local3:
  assumes D: "deref h d = Some D"
    and st: "\<And>k j i h' D'. frame d h h' \<Longrightarrow> deref h' d = Some D' \<Longrightarrow> dims D' = dims D \<Longrightarrow>
            step k j i h' = h'[d := Some (D'\<lparr>pr := B k j i (pr D')\<rparr>)]"
  shows "fold (\<lambda>k. fold (\<lambda>j. fold (step k j) (zs k j)) (ys k)) xs h
           = h[d := Some (D\<lparr>pr := fold (\<lambda>k. fold (\<lambda>j. fold (B k j) (zs k j)) (ys k)) xs (pr D)\<rparr>)]"
proof (rule heap_fold_local [OF D])
  fix k h' D'
  assume f: "frame d h h'" and D': "deref h' d = Some D'" and dm: "dims D' = dims D"
  show "fold (\<lambda>j. fold (step k j) (zs k j)) (ys k) h'
          = h'[d := Some (D'\<lparr>pr := fold (\<lambda>j. fold (B k j) (zs k j)) (ys k) (pr D')\<rparr>)]"
  proof (rule heap_fold_local2 [OF D'])
    fix j i h'' D''
    assume "frame d h' h''" and "deref h'' d = Some D''" and "dims D'' = dims D'"
    with f dm show "step k j i h'' = h''[d := Some (D''\<lparr>pr := B k j i (pr D'')\<rparr>)]"
      by (intro st) (auto intro: frame_trans)
  qed
qed

lemma fold_additive:
  assumes len: "\<And>x p. length (F x p) = length p"
    and step: "\<And>x p. q < length p \<Longrightarrow> F x p ! q = p ! q + S x"
  shows "q < length p \<Longrightarrow> fold F xs p ! q = p ! q + sum_list (map S xs)"
    and "length (fold F xs p) = length p"
proof -
  show l: "length (fold F xs p) = length p" for p
    by (induction xs arbitrary: p) (simp_all add: len)
  show "q < length p \<Longrightarrow> fold F xs p ! q = p ! q + sum_list (map S xs)"
  proof (induction xs arbitrary: p)
    case Nil
    then show ?case by simp
  next
    case (Cons x xs)
    then have "q < length (F x p)" by (simp add: len)
    then have "fold F xs (F x p) ! q = F x p ! q + sum_list (map S xs)" by (rule Cons.IH)
    with Cons.prems show ?case by (simp add: step add.assoc)
  qed
qed


lemma stencil_sweep_local:
  assumes f: "frame dd h h'" and D': "deref h' dd = Some D'"
    and da: "deref h da = Some Data" "da \<noteq> dd"
    and co: "deref h co = Some Coeff" "co \<noteq> dd"
  shows "stencil_sweep dd da co dist' order iOrder n out inp h'
           = h'[dd := Some (D'\<lparr>pr := sweep_list (pr Data) (pr Coeff) dist' order iOrder n out inp (pr D')\<rparr>)]"
proof -
  let ?cnt = "Suc (n - order + iOrder) - (order + iOrder)"
  have "stencil_sweep dd da co dist' order iOrder n out inp h'
          = fold (\<lambda>t h. wr h dd (out t)
                       (rd h dd (out t) +
                        rd h co iOrder * (rd h da (inp (order + iOrder + t))
                                           - rd h da (inp (order - (iOrder + 1) + t))) / dist'))
              [0..<?cnt] h'"
    unfolding stencil_sweep_def
    by (simp only: fold_counters Let_def prod.case add.left_neutral)
  also have "\<dots> = h'[dd := Some (D'\<lparr>pr := fold (\<lambda>t p. p[out t := p ! out t +
              pr Coeff ! iOrder * (pr Data ! inp (order + iOrder + t)
                                  - pr Data ! inp (order - (iOrder + 1) + t)) / dist'])
              [0..<?cnt] (pr D')\<rparr>)]"
  proof (rule heap_fold_local [OF D'])
    fix t h'' D''
    assume f': "frame dd h' h''" and D'': "deref h'' dd = Some D''"
    have ff: "frame dd h h''" using f f' by (rule frame_trans)
    have r1: "rd h'' co k = pr Coeff ! k" for k
      using rd_frame [OF ff co(2)] rd_local [OF co(1)] by simp
    have r2: "rd h'' da k = pr Data ! k" for k
      using rd_frame [OF ff da(2)] rd_local [OF da(1)] by simp
    show "wr h'' dd (out t)
            (rd h'' dd (out t) +
             rd h'' co iOrder * (rd h'' da (inp (order + iOrder + t))
                                 - rd h'' da (inp (order - (iOrder + 1) + t))) / dist')
          = h''[dd := Some (D''\<lparr>pr := (pr D'')[out t := pr D'' ! out t +
              pr Coeff ! iOrder * (pr Data ! inp (order + iOrder + t)
                                  - pr Data ! inp (order - (iOrder + 1) + t)) / dist']\<rparr>)]"
      by (simp only: wr_local [OF D''] rd_local [OF D''] r1 r2)
  qed
  finally show ?thesis by (simp only: sweep_list_def)
qed

lemma sweep_list_nth:
  assumes "q < length p"
  shows "sweep_list pData pCoeff dist' order iOrder n out inp p ! q
           = p ! q + (\<Sum>t\<leftarrow>[0..<Suc (n - order + iOrder) - (order + iOrder)].
                        if out t = q
                        then pCoeff ! iOrder * (pData ! inp (order + iOrder + t)
                                  - pData ! inp (order - (iOrder + 1) + t)) / dist'
                        else 0)"
  unfolding sweep_list_def
proof -
  let ?F = "\<lambda>t p. p[out t := p ! out t +
              pCoeff ! iOrder * (pData ! inp (order + iOrder + t)
                                  - pData ! inp (order - (iOrder + 1) + t)) / dist']"
  let ?S = "\<lambda>t. if out t = q
                        then pCoeff ! iOrder * (pData ! inp (order + iOrder + t)
                                  - pData ! inp (order - (iOrder + 1) + t)) / dist'
                        else 0"
  have len: "\<And>t p. length (?F t p) = length p" by simp
  have step: "\<And>t p. q < length p \<Longrightarrow> ?F t p ! q = p ! q + ?S t"
    by (simp add: nth_list_update)
  show "fold ?F [0..<Suc (n - order + iOrder) - (order + iOrder)] p ! q
          = p ! q + sum_list (map ?S [0..<Suc (n - order + iOrder) - (order + iOrder)])"
    using len step assms by (rule fold_additive(1))
qed

lemma length_sweep_list:
  "length (sweep_list pData pCoeff dist' order iOrder n out inp p) = length p"
  unfolding sweep_list_def by (rule length_fold_assign)


lemma sum_list_delta:
  fixes f :: "'a \<Rightarrow> real"
  assumes "distinct xs" "x0 \<in> set xs"
  shows "(\<Sum>x\<leftarrow>xs. if x = x0 then f x else 0) = f x0"
proof -
  have "(\<Sum>x\<leftarrow>xs. if x = x0 then f x else 0) = (\<Sum>x\<in>set xs. if x = x0 then f x else 0)"
    using assms(1) by (rule sum_list_distinct_conv_sum_set)
  also have "\<dots> = f x0" using assms(2) by (simp add: sum.delta)
  finally show ?thesis .
qed

lemma sum_list_zero: "(\<Sum>x\<leftarrow>xs. (0::real)) = 0"
  by (induction xs) simp_all

lemma sum_list_collapse:
  fixes f :: "'a \<Rightarrow> nat \<Rightarrow> real"
  assumes d: "distinct as" and a0: "a0 \<in> set as" and t0: "t0 < c"
    and inj: "\<And>a t. a \<in> set as \<Longrightarrow> t < c \<Longrightarrow> out a t = q \<Longrightarrow> a = a0 \<and> t = t0"
    and q: "out a0 t0 = q"
  shows "(\<Sum>a\<leftarrow>as. \<Sum>t\<leftarrow>[0..<c]. if out a t = q then f a t else 0) = f a0 t0"
proof -
  have inner: "(\<Sum>t\<leftarrow>[0..<c]. if out a t = q then f a t else 0) = (if a = a0 then f a t0 else 0)"
    if a: "a \<in> set as" for a
  proof -
    have pt: "(if out a t = q then f a t else 0) = (if t = t0 then (if a = a0 then f a t else 0) else 0)"
      if t: "t < c" for t
    proof (cases "out a t = q")
      case True
      with inj [OF a t] show ?thesis by simp
    next
      case False
      with q have "\<not> (t = t0 \<and> a = a0)" by blast
      with False show ?thesis by auto
    qed
    have "map (\<lambda>t. if out a t = q then f a t else 0) [0..<c]
            = map (\<lambda>t. if t = t0 then (if a = a0 then f a t else 0) else 0) [0..<c]"
      by (rule map_cong [OF refl]) (simp add: pt)
    then have "(\<Sum>t\<leftarrow>[0..<c]. if out a t = q then f a t else 0)
            = (\<Sum>t\<leftarrow>[0..<c]. if t = t0 then (if a = a0 then f a t else 0) else 0)"
      by (rule arg_cong)
    also have "\<dots> = (if a = a0 then f a t0 else 0)"
      using t0 by (intro sum_list_delta) simp_all
    finally show ?thesis .
  qed
  have "map (\<lambda>a. \<Sum>t\<leftarrow>[0..<c]. if out a t = q then f a t else 0) as
          = map (\<lambda>a. if a = a0 then f a t0 else 0) as"
    using inner by (intro map_cong) simp_all
  then have "(\<Sum>a\<leftarrow>as. \<Sum>t\<leftarrow>[0..<c]. if out a t = q then f a t else 0)
          = (\<Sum>a\<leftarrow>as. if a = a0 then f a t0 else 0)"
    by (rule arg_cong)
  also have "\<dots> = f a0 t0" using d a0 by (rule sum_list_delta)
  finally show ?thesis .
qed

lemma sweep_count:
  assumes "iOrder < order" and "2 * int order - 1 \<le> int n"
  shows "Suc (n - order + iOrder) - (order + iOrder) = nat (int n - (2 * int order - 1))"
  using assms by linarith

lemma length_fold_pres:
  assumes "\<And>x p. length (F x p) = length p"
  shows "length (fold F xs p) = length p"
  by (induction xs arbitrary: p) (simp_all add: assms)

lemma length_stencil_loops:
  "length (stencil_loops pData pCoeff dist' order n as out inp p) = length p"
  unfolding stencil_loops_def
  by (intro length_fold_pres length_sweep_list)


lemma stencil_loops_nth:
  fixes out :: "'a \<Rightarrow> nat \<Rightarrow> nat"
  assumes ext: "2 * int order - 1 \<le> int n"
    and d: "distinct as" and a0: "a0 \<in> set as"
    and t0: "t0 < nat (int n - (2 * int order - 1))"
    and inj: "\<And>a t. a \<in> set as \<Longrightarrow> t < nat (int n - (2 * int order - 1)) \<Longrightarrow>
                out a t = out a0 t0 \<Longrightarrow> a = a0 \<and> t = t0"
    and q: "out a0 t0 < length p"
  shows "stencil_loops pData pCoeff dist' order n as out inp p ! out a0 t0
           = p ! out a0 t0 +
             (\<Sum>k<order. pCoeff ! k * (pData ! inp a0 (order + k + t0)
                                        - pData ! inp a0 (order - (k + 1) + t0)) / dist')"
proof -
  let ?q = "out a0 t0"
  let ?nl = "nat (int n - (2 * int order - 1))"
  let ?tm = "\<lambda>k a t. pCoeff ! k * (pData ! inp a (order + k + t)
                                        - pData ! inp a (order - (k + 1) + t)) / dist'"
  let ?cnt = "\<lambda>k. Suc (n - order + k) - (order + k)"
  let ?Sa = "\<lambda>k a. \<Sum>t\<leftarrow>[0..<?cnt k]. if out a t = ?q then ?tm k a t else 0"
  let ?Fa = "\<lambda>k a. sweep_list pData pCoeff dist' order k n (out a) (inp a)"
  have la: "\<And>k a p. length (?Fa k a p) = length p" by (rule length_sweep_list)
  have sa: "\<And>k a p. ?q < length p \<Longrightarrow> ?Fa k a p ! ?q = p ! ?q + ?Sa k a"
    by (rule sweep_list_nth)
  have lk: "\<And>k p. length (fold (?Fa k) as p) = length p"
    by (intro length_fold_pres la)
  have sk: "\<And>k p. ?q < length p \<Longrightarrow> fold (?Fa k) as p ! ?q = p ! ?q + sum_list (map (?Sa k) as)"
    by (rule fold_additive(1) [OF la sa])
  have "stencil_loops pData pCoeff dist' order n as out inp p ! ?q
          = p ! ?q + sum_list (map (\<lambda>k. sum_list (map (?Sa k) as)) [0..<order])"
    unfolding stencil_loops_def by (rule fold_additive(1) [OF lk sk q])
  also have "map (\<lambda>k. sum_list (map (?Sa k) as)) [0..<order] = map (\<lambda>k. ?tm k a0 t0) [0..<order]"
  proof (rule map_cong [OF refl])
    fix k assume "k \<in> set [0..<order]"
    then have k: "k < order" by simp
    have c: "?cnt k = ?nl" using k ext by (rule sweep_count)
    have "(\<Sum>a\<leftarrow>as. \<Sum>t\<leftarrow>[0..<?nl]. if out a t = ?q then ?tm k a t else 0) = ?tm k a0 t0"
      using d a0 t0 inj refl by (rule sum_list_collapse)
    then show "sum_list (map (?Sa k) as) = ?tm k a0 t0" by (simp only: c)
  qed
  also have "sum_list (map (\<lambda>k. ?tm k a0 t0) [0..<order]) = (\<Sum>k<order. ?tm k a0 t0)"
    by (simp add: interv_sum_list_conv_sum_set_nat atLeast0LessThan)
  finally show ?thesis .
qed


lemma fold_product:
  "fold (\<lambda>a. fold (G a) bs) as = fold (\<lambda>ab. G (fst ab) (snd ab)) (List.product as bs)"
proof (induction as)
  case Nil
  then show ?case by simp
next
  case (Cons a as)
  have "fold (\<lambda>ab. G (fst ab) (snd ab)) (map (Pair a) bs) = fold (G a) bs"
    by (simp add: fold_map comp_def)
  with Cons show ?case by simp
qed

lemma stencil_loops2_heap:
  assumes Z: "deref h dd = Some Z"
    and da: "deref h da = Some Data" "da \<noteq> dd"
    and co: "deref h co = Some Coeff" "co \<noteq> dd"
  shows "fold (\<lambda>iOrder. fold (\<lambda>a. stencil_sweep dd da co dist' order iOrder n (out a) (inp a)) as)
           [0..<order] h
         = h[dd := Some (Z\<lparr>pr := stencil_loops (pr Data) (pr Coeff) dist' order n as out inp (pr Z)\<rparr>)]"
  unfolding stencil_loops_def
proof (rule heap_fold_local2 [OF Z])
  fix k a h' D'
  assume "frame dd h h'" and "deref h' dd = Some D'"
  then show "stencil_sweep dd da co dist' order k n (out a) (inp a) h'
        = h'[dd := Some (D'\<lparr>pr := sweep_list (pr Data) (pr Coeff) dist' order k n (out a) (inp a) (pr D')\<rparr>)]"
    using da co by (rule stencil_sweep_local)
qed

lemma stencil_loops3_heap:
  assumes Z: "deref h dd = Some Z"
    and da: "deref h da = Some Data" "da \<noteq> dd"
    and co: "deref h co = Some Coeff" "co \<noteq> dd"
  shows "fold (\<lambda>iOrder. fold (\<lambda>a. fold (\<lambda>b.
             stencil_sweep dd da co dist' order iOrder n (out a b) (inp a b)) bs) as)
           [0..<order] h
         = h[dd := Some (Z\<lparr>pr := stencil_loops (pr Data) (pr Coeff) dist' order n (List.product as bs)
                                   (\<lambda>ab. out (fst ab) (snd ab)) (\<lambda>ab. inp (fst ab) (snd ab)) (pr Z)\<rparr>)]"
proof -
  have "fold (\<lambda>iOrder. fold (\<lambda>a. fold (\<lambda>b.
             stencil_sweep dd da co dist' order iOrder n (out a b) (inp a b)) bs) as)
           [0..<order] h
         = h[dd := Some (Z\<lparr>pr := fold (\<lambda>iOrder. fold (\<lambda>a. fold (\<lambda>b.
             sweep_list (pr Data) (pr Coeff) dist' order iOrder n (out a b) (inp a b)) bs) as)
           [0..<order] (pr Z)\<rparr>)]"
  proof (rule heap_fold_local3 [OF Z])
    fix k a b h' D'
    assume "frame dd h h'" and "deref h' dd = Some D'"
    then show "stencil_sweep dd da co dist' order k n (out a b) (inp a b) h'
        = h'[dd := Some (D'\<lparr>pr := sweep_list (pr Data) (pr Coeff) dist' order k n (out a b) (inp a b) (pr D')\<rparr>)]"
      using da co by (rule stencil_sweep_local)
  qed
  also have "(\<lambda>iOrder. fold (\<lambda>a. fold (\<lambda>b.
             sweep_list (pr Data) (pr Coeff) dist' order iOrder n (out a b) (inp a b)) bs) as)
        = (\<lambda>iOrder. fold (\<lambda>ab. sweep_list (pr Data) (pr Coeff) dist' order iOrder n
                                 (out (fst ab) (snd ab)) (inp (fst ab) (snd ab))) (List.product as bs))"
    by (rule ext) (rule fold_product)
  finally show ?thesis by (simp only: stencil_loops_def)
qed

lemma mixed_radix:
  fixes m :: nat
  assumes "b < m" "b' < m" "a * m + b = a' * m + b'"
  shows "a = a' \<and> b = b'"
proof -
  have "(a * m + b) div m = a" "(a' * m + b') div m = a'"
    using assms(1,2) by simp_all
  with assms(3) have "a = a'" by simp
  with assms(3) show ?thesis by simp
qed


lemma alloc_loops2:
  assumes da: "deref h da = Some Data" and co: "deref h co = Some Coeff"
  shows "fold (\<lambda>iOrder. fold (\<lambda>a. stencil_sweep (length h) da co dist' order iOrder n (out a) (inp a)) as)
           [0..<order] (h @ [Some Z])
         = h @ [Some (Z\<lparr>pr := stencil_loops (pr Data) (pr Coeff) dist' order n as out inp (pr Z)\<rparr>)]"
proof -
  have a: "da < length h" and c: "co < length h"
    using da co by (auto dest: deref_Some_length)
  have "fold (\<lambda>iOrder. fold (\<lambda>a. stencil_sweep (length h) da co dist' order iOrder n (out a) (inp a)) as)
           [0..<order] (h @ [Some Z])
         = (h @ [Some Z])[length h := Some (Z\<lparr>pr := stencil_loops (pr Data) (pr Coeff) dist' order n as out inp (pr Z)\<rparr>)]"
    using a c da co
    by (intro stencil_loops2_heap) (simp_all add: deref_append_new deref_append_old)
  then show ?thesis by simp
qed

lemma alloc_loops3:
  assumes da: "deref h da = Some Data" and co: "deref h co = Some Coeff"
  shows "fold (\<lambda>iOrder. fold (\<lambda>a. fold (\<lambda>b.
             stencil_sweep (length h) da co dist' order iOrder n (out a b) (inp a b)) bs) as)
           [0..<order] (h @ [Some Z])
         = h @ [Some (Z\<lparr>pr := stencil_loops (pr Data) (pr Coeff) dist' order n (List.product as bs)
                                   (\<lambda>ab. out (fst ab) (snd ab)) (\<lambda>ab. inp (fst ab) (snd ab)) (pr Z)\<rparr>)]"
proof -
  have a: "da < length h" and c: "co < length h"
    using da co by (auto dest: deref_Some_length)
  have "fold (\<lambda>iOrder. fold (\<lambda>a. fold (\<lambda>b.
             stencil_sweep (length h) da co dist' order iOrder n (out a b) (inp a b)) bs) as)
           [0..<order] (h @ [Some Z])
         = (h @ [Some Z])[length h := Some (Z\<lparr>pr := stencil_loops (pr Data) (pr Coeff) dist' order n
                 (List.product as bs)
                 (\<lambda>ab. out (fst ab) (snd ab)) (\<lambda>ab. inp (fst ab) (snd ab)) (pr Z)\<rparr>)]"
    using a c da co
    by (intro stencil_loops3_heap) (simp_all add: deref_append_new deref_append_old)
  then show ?thesis by simp
qed

lemma diffOperator_2d_dim1:
  assumes da: "deref h data = Some Data" and co: "deref h coeff = Some Coeff"
    and nd: "length (dims Data) \<le> 2" and dim: "dim' \<le> 1"
    and ext: "2 * int (prod_list (dims Coeff)) - 1 \<le> int (dims Data ! 0)"
  shows "diffOperator data coeff dist' dim' h =
           Inr (length h, h @ [Some \<lparr>dims = [nat (int (dims Data ! 0) - (2 * int (prod_list (dims Coeff)) - 1)),
                                             dims Data ! 1],
                 pr = stencil_loops (pr Data) (pr Coeff) dist' (prod_list (dims Coeff)) (dims Data ! 0)
                        [0..<dims Data ! 1]
                        (\<lambda>j i. j * nat (int (dims Data ! 0) - (2 * int (prod_list (dims Coeff)) - 1)) + i)
                        (\<lambda>j idx. j * (dims Data ! 0) + idx)
                        (replicate (nat (int (dims Data ! 0) - (2 * int (prod_list (dims Coeff)) - 1))
                                      * (dims Data ! 1)) 0)\<rparr>])"
  using nd dim ext
  by (simp add: diffOperator_def da co Let_def mxGetNumberOfDimensions_def mxGetNumberOfElements_def
        mxCreateDoubleMatrix_def alloc_loops2 [OF da co] del: upt.simps fold_simps)


lemma diffOperator_2d_dim2:
  assumes da: "deref h data = Some Data" and co: "deref h coeff = Some Coeff"
    and nd: "length (dims Data) \<le> 2" and dim: "2 \<le> dim'"
    and ext: "2 * int (prod_list (dims Coeff)) - 1 \<le> int (dims Data ! 1)"
  shows "diffOperator data coeff dist' dim' h =
           Inr (length h, h @ [Some \<lparr>dims = [dims Data ! 0,
                                             nat (int (dims Data ! 1) - (2 * int (prod_list (dims Coeff)) - 1))],
                 pr = stencil_loops (pr Data) (pr Coeff) dist' (prod_list (dims Coeff)) (dims Data ! 1)
                        [0..<dims Data ! 0]
                        (\<lambda>i j. j * (dims Data ! 0) + i)
                        (\<lambda>i idx. idx * (dims Data ! 0) + i)
                        (replicate ((dims Data ! 0)
                            * nat (int (dims Data ! 1) - (2 * int (prod_list (dims Coeff)) - 1))) 0)\<rparr>])"
  using nd dim ext
  by (simp add: diffOperator_def da co Let_def mxGetNumberOfDimensions_def mxGetNumberOfElements_def
        mxCreateDoubleMatrix_def alloc_loops2 [OF da co] del: upt.simps fold_simps)

lemma diffOperator_3d_dim1:
  assumes da: "deref h data = Some Data" and co: "deref h coeff = Some Coeff"
    and nd: "length (dims Data) = 3" and dim: "dim' \<le> 1"
    and ext: "2 * int (prod_list (dims Coeff)) - 1 \<le> int (dims Data ! 0)"
  shows "diffOperator data coeff dist' dim' h =
           Inr (length h, h @ [Some \<lparr>dims = [nat (int (dims Data ! 0) - (2 * int (prod_list (dims Coeff)) - 1)),
                                             dims Data ! 1, dims Data ! 2],
                 pr = stencil_loops (pr Data) (pr Coeff) dist' (prod_list (dims Coeff)) (dims Data ! 0)
                        (List.product [0..<dims Data ! 2] [0..<dims Data ! 1])
                        (\<lambda>kj i. fst kj * (nat (int (dims Data ! 0) - (2 * int (prod_list (dims Coeff)) - 1))
                                            * (dims Data ! 1))
                                 + snd kj * nat (int (dims Data ! 0) - (2 * int (prod_list (dims Coeff)) - 1)) + i)
                        (\<lambda>kj idx. fst kj * ((dims Data ! 0) * (dims Data ! 1)) + snd kj * (dims Data ! 0) + idx)
                        (replicate (prod_list
                           [nat (int (dims Data ! 0) - (2 * int (prod_list (dims Coeff)) - 1)),
                            dims Data ! 1, dims Data ! 2]) 0)\<rparr>])"
  using nd dim ext
  by (simp add: diffOperator_def da co Let_def mxGetNumberOfDimensions_def mxGetNumberOfElements_def
        mxCreateNumericArray_def alloc_loops3 [OF da co] del: upt.simps fold_simps prod_list.Cons)

lemma diffOperator_3d_dim2:
  assumes da: "deref h data = Some Data" and co: "deref h coeff = Some Coeff"
    and nd: "length (dims Data) = 3" and dim: "dim' = 2"
    and ext: "2 * int (prod_list (dims Coeff)) - 1 \<le> int (dims Data ! 1)"
  shows "diffOperator data coeff dist' dim' h =
           Inr (length h, h @ [Some \<lparr>dims = [dims Data ! 0,
                                             nat (int (dims Data ! 1) - (2 * int (prod_list (dims Coeff)) - 1)),
                                             dims Data ! 2],
                 pr = stencil_loops (pr Data) (pr Coeff) dist' (prod_list (dims Coeff)) (dims Data ! 1)
                        (List.product [0..<dims Data ! 2] [0..<dims Data ! 0])
                        (\<lambda>ki j. fst ki * ((dims Data ! 0)
                                            * nat (int (dims Data ! 1) - (2 * int (prod_list (dims Coeff)) - 1)))
                                 + j * (dims Data ! 0) + snd ki)
                        (\<lambda>ki idx. fst ki * ((dims Data ! 0) * (dims Data ! 1)) + idx * (dims Data ! 0) + snd ki)
                        (replicate (prod_list
                           [dims Data ! 0,
                            nat (int (dims Data ! 1) - (2 * int (prod_list (dims Coeff)) - 1)),
                            dims Data ! 2]) 0)\<rparr>])"
  using nd dim ext
  by (simp add: diffOperator_def da co Let_def mxGetNumberOfDimensions_def mxGetNumberOfElements_def
        mxCreateNumericArray_def alloc_loops3 [OF da co] del: upt.simps fold_simps prod_list.Cons)

lemma diffOperator_3d_dim3:
  assumes da: "deref h data = Some Data" and co: "deref h coeff = Some Coeff"
    and nd: "length (dims Data) = 3" and dim: "3 \<le> dim'"
    and ext: "2 * int (prod_list (dims Coeff)) - 1 \<le> int (dims Data ! 2)"
  shows "diffOperator data coeff dist' dim' h =
           Inr (length h, h @ [Some \<lparr>dims = [dims Data ! 0, dims Data ! 1,
                                             nat (int (dims Data ! 2) - (2 * int (prod_list (dims Coeff)) - 1))],
                 pr = stencil_loops (pr Data) (pr Coeff) dist' (prod_list (dims Coeff)) (dims Data ! 2)
                        (List.product [0..<dims Data ! 1] [0..<dims Data ! 0])
                        (\<lambda>ji k. k * ((dims Data ! 0) * (dims Data ! 1)) + fst ji * (dims Data ! 0) + snd ji)
                        (\<lambda>ji idx. idx * ((dims Data ! 0) * (dims Data ! 1)) + fst ji * (dims Data ! 0) + snd ji)
                        (replicate (prod_list
                           [dims Data ! 0, dims Data ! 1,
                            nat (int (dims Data ! 2) - (2 * int (prod_list (dims Coeff)) - 1))]) 0)\<rparr>])"
  using nd dim ext
  by (simp add: diffOperator_def da co Let_def mxGetNumberOfDimensions_def mxGetNumberOfElements_def
        mxCreateNumericArray_def alloc_loops3 [OF da co] del: upt.simps fold_simps prod_list.Cons)


lemma list_all2_less_2:
  "list_all2 (<) is [a, b] \<longleftrightarrow> (\<exists>i j. is = [i, j] \<and> i < a \<and> j < (b::nat))"
  by (auto simp: list_all2_Cons2)

lemma list_all2_less_3:
  "list_all2 (<) is [a, b, c] \<longleftrightarrow> (\<exists>i j k. is = [i, j, k] \<and> i < a \<and> j < b \<and> k < (c::nat))"
  by (auto simp: list_all2_Cons2)

lemma length_2_cases: "length xs = 2 \<Longrightarrow> \<exists>a b. xs = [a, b]"
  by (cases xs; cases "tl xs") auto

lemma length_3_cases: "length xs = 3 \<Longrightarrow> \<exists>a b c. xs = [a, b, c]"
  by (cases xs; cases "tl xs"; cases "tl (tl xs)") auto

lemma sub2ind_2: "sub2ind [n1, n2] [i, j] = j * n1 + i"
  by simp

lemma sub2ind_3: "sub2ind [n1, n2, n3] [i, j, k] = k * (n1 * n2) + j * n1 + i"
  by (simp add: algebra_simps)

lemma mixed_radix3:
  fixes m n :: nat
  assumes "c < m" "c' < m" "b < n" "b' < n" "(a * n + b) * m + c = (a' * n + b') * m + c'"
  shows "a = a' \<and> b = b' \<and> c = c'"
proof -
  from mixed_radix [OF assms(1,2,5)] have 1: "a * n + b = a' * n + b'" and 2: "c = c'" by simp_all
  from mixed_radix [OF assms(3,4) 1] 2 show ?thesis by simp
qed

lemma grid_index_less3:
  fixes m n :: nat
  assumes "a < r" "b < n" "c < m"
  shows "(a * n + b) * m + c < m * (n * r)"
proof -
  have "a * n + b < n * r" using assms(1,2) by (rule grid_index_less)
  then show ?thesis using assms(3) by (rule grid_index_less)
qed

lemma derivative_2d_dim1:
  fixes n1 n2 order :: nat
  assumes ds: "dims Data = [n1, n2]" and ord: "length (pr Coeff) = order"
    and ext: "2 * int order - 1 \<le> int n1"
  defines "nl \<equiv> nat (int n1 - (2 * int order - 1))"
  shows "is_derivative Data Coeff dist' 0
           \<lparr>dims = [nl, n2],
            pr = stencil_loops (pr Data) (pr Coeff) dist' order n1 ([0..<n2])
                   (\<lambda>j i. j * nl + i) (\<lambda>j idx. j * n1 + idx) (replicate (nl * n2) 0)\<rparr>"
proof -
  let ?out = "\<lambda>j i. j * nl + i"
  let ?inp = "\<lambda>j idx. j * n1 + idx"
  let ?P = "stencil_loops (pr Data) (pr Coeff) dist' order n1 ([0..<n2])
                   ?out ?inp (replicate (nl * n2) 0)"
  have nl: "int nl = int n1 - (2 * int order - 1)" using ext by (simp add: nl_def)
  have entry: "?P ! sub2ind [nl, n2] [i, j] =
             (\<Sum>c<order.
                pr Coeff ! c * (pr Data ! sub2ind [n1, n2] ([i, j][0 := [i, j] ! 0 + order + c])
                               - pr Data ! sub2ind [n1, n2] ([i, j][0 := [i, j] ! 0 + order - 1 - c]))
                  / dist')"
    if i: "i < nl" and j: "j < n2" for i j
  proof -
    have bound: "?out j i < nl * n2"
      using grid_index_less [OF j i] by simp
    have d: "distinct ([0..<n2])" by (simp add: distinct_product)
    have m: "j \<in> set ([0..<n2])" using j by simp
    have t: "i < nat (int n1 - (2 * int order - 1))" using i by (simp add: nl_def)
    have inj: "a = j \<and> t = i"
        if "a \<in> set ([0..<n2])" "t < nat (int n1 - (2 * int order - 1))"
           "?out a t = ?out j i" for a t
        proof -
          from that(2) have "t < nl" by (simp add: nl_def)
          from mixed_radix [OF this i that(3)] show ?thesis by simp
        qed
    have len: "?out j i < length (replicate (nl * n2) (0::real))"
      using bound by simp
    have zero: "replicate (nl * n2) (0::real) ! ?out j i = 0"
      using bound by simp
    have "?P ! ?out j i = replicate (nl * n2) 0 ! ?out j i +
             (\<Sum>c<order. pr Coeff ! c * (pr Data ! ?inp j (order + c + i)
                                        - pr Data ! ?inp j (order - (c + 1) + i)) / dist')"
      using ext d m t inj len
      by (rule stencil_loops_nth [where out = ?out and inp = ?inp])
    also have "\<dots> = (\<Sum>c<order. pr Coeff ! c * (pr Data ! ?inp j (order + c + i)
                                        - pr Data ! ?inp j (order - (c + 1) + i)) / dist')"
      by (simp only: zero add.left_neutral)
    also have "\<dots> = (\<Sum>c<order.
                pr Coeff ! c * (pr Data ! sub2ind [n1, n2] ([i, j][0 := [i, j] ! 0 + order + c])
                               - pr Data ! sub2ind [n1, n2] ([i, j][0 := [i, j] ! 0 + order - 1 - c]))
                  / dist')"
    proof (rule sum.cong [OF refl])
      fix c assume "c \<in> {..<order}"
      then have c: "c < order" by simp
      have u1: "[i, j][0 := [i, j] ! 0 + order + c] = [i + order + c, j]" by simp
      have u2: "[i, j][0 := [i, j] ! 0 + order - 1 - c] = [i + order - 1 - c, j]" by simp
      have e1: "order + c + i = i + order + c" by simp
      have e2: "order - (c + 1) + i = i + order - 1 - c" using c by simp
      show "pr Coeff ! c * (pr Data ! ?inp j (order + c + i)
                                        - pr Data ! ?inp j (order - (c + 1) + i)) / dist'
         = pr Coeff ! c * (pr Data ! sub2ind [n1, n2] ([i, j][0 := [i, j] ! 0 + order + c])
                               - pr Data ! sub2ind [n1, n2] ([i, j][0 := [i, j] ! 0 + order - 1 - c]))
                  / dist'"
        by (simp only: u1 u2 sub2ind_2 fst_conv snd_conv e1 e2)
    qed
    finally show ?thesis by (simp only: sub2ind_2 fst_conv snd_conv)
  qed
  show ?thesis
    unfolding is_derivative_def
  proof (intro conjI allI impI)
    show "length (dims \<lparr>dims = [nl, n2], pr = ?P\<rparr>) = length (dims Data)" by (simp add: ds)
    show "int (dims \<lparr>dims = [nl, n2], pr = ?P\<rparr> ! a) =
            (if a = 0 then int (dims Data ! a) - (2 * int (length (pr Coeff)) - 1)
             else int (dims Data ! a))" if "a < length (dims Data)" for a
    proof -
      from that have "a \<in> {0, 1}" by (auto simp: ds)
      then show ?thesis using nl by (auto simp: ds ord)
    qed
    show "length (pr \<lparr>dims = [nl, n2], pr = ?P\<rparr>) = prod_list (dims \<lparr>dims = [nl, n2], pr = ?P\<rparr>)"
      by (simp add: length_stencil_loops)
    show "pr \<lparr>dims = [nl, n2], pr = ?P\<rparr> ! sub2ind (dims \<lparr>dims = [nl, n2], pr = ?P\<rparr>) is =
             (\<Sum>c<length (pr Coeff).
                pr Coeff ! c * (pr Data ! sub2ind (dims Data) (is[0 := is ! 0 + length (pr Coeff) + c])
                               - pr Data ! sub2ind (dims Data) (is[0 := is ! 0 + length (pr Coeff) - 1 - c]))
                  / dist')"
      if "list_all2 (<) is (dims \<lparr>dims = [nl, n2], pr = ?P\<rparr>)" for "is"
    proof -
      from that obtain i j where eq: "is = [i, j]" and "i < nl" "j < n2"
        by (auto simp: list_all2_less_2)
      then show ?thesis using entry [of i j] by (simp only: eq ds ord mxArray.simps)
    qed
  qed
qed

lemma derivative_2d_dim2:
  fixes n1 n2 order :: nat
  assumes ds: "dims Data = [n1, n2]" and ord: "length (pr Coeff) = order"
    and ext: "2 * int order - 1 \<le> int n2"
  defines "nl \<equiv> nat (int n2 - (2 * int order - 1))"
  shows "is_derivative Data Coeff dist' 1
           \<lparr>dims = [n1, nl],
            pr = stencil_loops (pr Data) (pr Coeff) dist' order n2 ([0..<n1])
                   (\<lambda>i j. j * n1 + i) (\<lambda>i idx. idx * n1 + i) (replicate (n1 * nl) 0)\<rparr>"
proof -
  let ?out = "\<lambda>i j. j * n1 + i"
  let ?inp = "\<lambda>i idx. idx * n1 + i"
  let ?P = "stencil_loops (pr Data) (pr Coeff) dist' order n2 ([0..<n1])
                   ?out ?inp (replicate (n1 * nl) 0)"
  have nl: "int nl = int n2 - (2 * int order - 1)" using ext by (simp add: nl_def)
  have entry: "?P ! sub2ind [n1, nl] [i, j] =
             (\<Sum>c<order.
                pr Coeff ! c * (pr Data ! sub2ind [n1, n2] ([i, j][1 := [i, j] ! 1 + order + c])
                               - pr Data ! sub2ind [n1, n2] ([i, j][1 := [i, j] ! 1 + order - 1 - c]))
                  / dist')"
    if i: "i < n1" and j: "j < nl" for i j
  proof -
    have bound: "?out i j < n1 * nl"
      using grid_index_less [OF j i] by simp
    have d: "distinct ([0..<n1])" by (simp add: distinct_product)
    have m: "i \<in> set ([0..<n1])" using i by simp
    have t: "j < nat (int n2 - (2 * int order - 1))" using j by (simp add: nl_def)
    have inj: "a = i \<and> t = j"
        if "a \<in> set ([0..<n1])" "t < nat (int n2 - (2 * int order - 1))"
           "?out a t = ?out i j" for a t
        proof -
          from that(1) have "a < n1" by simp
          from mixed_radix [OF this i that(3)] show ?thesis by simp
        qed
    have len: "?out i j < length (replicate (n1 * nl) (0::real))"
      using bound by simp
    have zero: "replicate (n1 * nl) (0::real) ! ?out i j = 0"
      using bound by simp
    have "?P ! ?out i j = replicate (n1 * nl) 0 ! ?out i j +
             (\<Sum>c<order. pr Coeff ! c * (pr Data ! ?inp i (order + c + j)
                                        - pr Data ! ?inp i (order - (c + 1) + j)) / dist')"
      using ext d m t inj len
      by (rule stencil_loops_nth [where out = ?out and inp = ?inp])
    also have "\<dots> = (\<Sum>c<order. pr Coeff ! c * (pr Data ! ?inp i (order + c + j)
                                        - pr Data ! ?inp i (order - (c + 1) + j)) / dist')"
      by (simp only: zero add.left_neutral)
    also have "\<dots> = (\<Sum>c<order.
                pr Coeff ! c * (pr Data ! sub2ind [n1, n2] ([i, j][1 := [i, j] ! 1 + order + c])
                               - pr Data ! sub2ind [n1, n2] ([i, j][1 := [i, j] ! 1 + order - 1 - c]))
                  / dist')"
    proof (rule sum.cong [OF refl])
      fix c assume "c \<in> {..<order}"
      then have c: "c < order" by simp
      have u1: "[i, j][1 := [i, j] ! 1 + order + c] = [i, j + order + c]" by simp
      have u2: "[i, j][1 := [i, j] ! 1 + order - 1 - c] = [i, j + order - 1 - c]" by simp
      have e1: "order + c + j = j + order + c" by simp
      have e2: "order - (c + 1) + j = j + order - 1 - c" using c by simp
      show "pr Coeff ! c * (pr Data ! ?inp i (order + c + j)
                                        - pr Data ! ?inp i (order - (c + 1) + j)) / dist'
         = pr Coeff ! c * (pr Data ! sub2ind [n1, n2] ([i, j][1 := [i, j] ! 1 + order + c])
                               - pr Data ! sub2ind [n1, n2] ([i, j][1 := [i, j] ! 1 + order - 1 - c]))
                  / dist'"
        by (simp only: u1 u2 sub2ind_2 fst_conv snd_conv e1 e2)
    qed
    finally show ?thesis by (simp only: sub2ind_2 fst_conv snd_conv)
  qed
  show ?thesis
    unfolding is_derivative_def
  proof (intro conjI allI impI)
    show "length (dims \<lparr>dims = [n1, nl], pr = ?P\<rparr>) = length (dims Data)" by (simp add: ds)
    show "int (dims \<lparr>dims = [n1, nl], pr = ?P\<rparr> ! a) =
            (if a = 1 then int (dims Data ! a) - (2 * int (length (pr Coeff)) - 1)
             else int (dims Data ! a))" if "a < length (dims Data)" for a
    proof -
      from that have "a \<in> {0, 1}" by (auto simp: ds)
      then show ?thesis using nl by (auto simp: ds ord)
    qed
    show "length (pr \<lparr>dims = [n1, nl], pr = ?P\<rparr>) = prod_list (dims \<lparr>dims = [n1, nl], pr = ?P\<rparr>)"
      by (simp add: length_stencil_loops)
    show "pr \<lparr>dims = [n1, nl], pr = ?P\<rparr> ! sub2ind (dims \<lparr>dims = [n1, nl], pr = ?P\<rparr>) is =
             (\<Sum>c<length (pr Coeff).
                pr Coeff ! c * (pr Data ! sub2ind (dims Data) (is[1 := is ! 1 + length (pr Coeff) + c])
                               - pr Data ! sub2ind (dims Data) (is[1 := is ! 1 + length (pr Coeff) - 1 - c]))
                  / dist')"
      if "list_all2 (<) is (dims \<lparr>dims = [n1, nl], pr = ?P\<rparr>)" for "is"
    proof -
      from that obtain i j where eq: "is = [i, j]" and "i < n1" "j < nl"
        by (auto simp: list_all2_less_2)
      then show ?thesis using entry [of i j] by (simp only: eq ds ord mxArray.simps)
    qed
  qed
qed

lemma derivative_3d_dim1:
  fixes n1 n2 n3 order :: nat
  assumes ds: "dims Data = [n1, n2, n3]" and ord: "length (pr Coeff) = order"
    and ext: "2 * int order - 1 \<le> int n1"
  defines "nl \<equiv> nat (int n1 - (2 * int order - 1))"
  shows "is_derivative Data Coeff dist' 0
           \<lparr>dims = [nl, n2, n3],
            pr = stencil_loops (pr Data) (pr Coeff) dist' order n1 (List.product [0..<n3] [0..<n2])
                   (\<lambda>kj i. fst kj * (nl * n2) + snd kj * nl + i) (\<lambda>kj idx. fst kj * (n1 * n2) + snd kj * n1 + idx) (replicate (prod_list [nl, n2, n3]) 0)\<rparr>"
proof -
  let ?out = "\<lambda>kj i. fst kj * (nl * n2) + snd kj * nl + i"
  let ?inp = "\<lambda>kj idx. fst kj * (n1 * n2) + snd kj * n1 + idx"
  let ?P = "stencil_loops (pr Data) (pr Coeff) dist' order n1 (List.product [0..<n3] [0..<n2])
                   ?out ?inp (replicate (prod_list [nl, n2, n3]) 0)"
  have nl: "int nl = int n1 - (2 * int order - 1)" using ext by (simp add: nl_def)
  have entry: "?P ! sub2ind [nl, n2, n3] [i, j, k] =
             (\<Sum>c<order.
                pr Coeff ! c * (pr Data ! sub2ind [n1, n2, n3] ([i, j, k][0 := [i, j, k] ! 0 + order + c])
                               - pr Data ! sub2ind [n1, n2, n3] ([i, j, k][0 := [i, j, k] ! 0 + order - 1 - c]))
                  / dist')"
    if i: "i < nl" and j: "j < n2" and k: "k < n3" for i j k
  proof -
    have bound: "?out (k, j) i < prod_list [nl, n2, n3]"
      proof -
          have "fst (k, j) * (nl * n2) + snd (k, j) * nl + i = (k * n2 + j) * nl + i"
            by (simp add: algebra_simps)
          with grid_index_less3 [OF k j i] show ?thesis by simp
        qed
    have d: "distinct (List.product [0..<n3] [0..<n2])" by (simp add: distinct_product)
    have m: "(k, j) \<in> set (List.product [0..<n3] [0..<n2])" using j k by simp
    have t: "i < nat (int n1 - (2 * int order - 1))" using i by (simp add: nl_def)
    have inj: "a = (k, j) \<and> t = i"
        if "a \<in> set (List.product [0..<n3] [0..<n2])" "t < nat (int n1 - (2 * int order - 1))"
           "?out a t = ?out (k, j) i" for a t
        proof -
          from that(1) have s: "snd a < n2" by auto
          from that(2) have t: "t < nl" by (simp add: nl_def)
          have l: "fst a * (nl * n2) + snd a * nl + t = (fst a * n2 + snd a) * nl + t"
            by (simp add: algebra_simps)
          have r: "fst (k, j) * (nl * n2) + snd (k, j) * nl + i = (k * n2 + j) * nl + i"
            by (simp add: algebra_simps)
          from that(3) have "(fst a * n2 + snd a) * nl + t = (k * n2 + j) * nl + i"
            by (simp only: l r)
          from mixed_radix3 [OF t i s j this] show ?thesis by (cases a) simp
        qed
    have len: "?out (k, j) i < length (replicate (prod_list [nl, n2, n3]) (0::real))"
      using bound by simp
    have zero: "replicate (prod_list [nl, n2, n3]) (0::real) ! ?out (k, j) i = 0"
      using bound by simp
    have "?P ! ?out (k, j) i = replicate (prod_list [nl, n2, n3]) 0 ! ?out (k, j) i +
             (\<Sum>c<order. pr Coeff ! c * (pr Data ! ?inp (k, j) (order + c + i)
                                        - pr Data ! ?inp (k, j) (order - (c + 1) + i)) / dist')"
      using ext d m t inj len
      by (rule stencil_loops_nth [where out = ?out and inp = ?inp])
    also have "\<dots> = (\<Sum>c<order. pr Coeff ! c * (pr Data ! ?inp (k, j) (order + c + i)
                                        - pr Data ! ?inp (k, j) (order - (c + 1) + i)) / dist')"
      by (simp only: zero add.left_neutral)
    also have "\<dots> = (\<Sum>c<order.
                pr Coeff ! c * (pr Data ! sub2ind [n1, n2, n3] ([i, j, k][0 := [i, j, k] ! 0 + order + c])
                               - pr Data ! sub2ind [n1, n2, n3] ([i, j, k][0 := [i, j, k] ! 0 + order - 1 - c]))
                  / dist')"
    proof (rule sum.cong [OF refl])
      fix c assume "c \<in> {..<order}"
      then have c: "c < order" by simp
      have u1: "[i, j, k][0 := [i, j, k] ! 0 + order + c] = [i + order + c, j, k]" by simp
      have u2: "[i, j, k][0 := [i, j, k] ! 0 + order - 1 - c] = [i + order - 1 - c, j, k]" by simp
      have e1: "order + c + i = i + order + c" by simp
      have e2: "order - (c + 1) + i = i + order - 1 - c" using c by simp
      show "pr Coeff ! c * (pr Data ! ?inp (k, j) (order + c + i)
                                        - pr Data ! ?inp (k, j) (order - (c + 1) + i)) / dist'
         = pr Coeff ! c * (pr Data ! sub2ind [n1, n2, n3] ([i, j, k][0 := [i, j, k] ! 0 + order + c])
                               - pr Data ! sub2ind [n1, n2, n3] ([i, j, k][0 := [i, j, k] ! 0 + order - 1 - c]))
                  / dist'"
        by (simp only: u1 u2 sub2ind_3 fst_conv snd_conv e1 e2)
    qed
    finally show ?thesis by (simp only: sub2ind_3 fst_conv snd_conv)
  qed
  show ?thesis
    unfolding is_derivative_def
  proof (intro conjI allI impI)
    show "length (dims \<lparr>dims = [nl, n2, n3], pr = ?P\<rparr>) = length (dims Data)" by (simp add: ds)
    show "int (dims \<lparr>dims = [nl, n2, n3], pr = ?P\<rparr> ! a) =
            (if a = 0 then int (dims Data ! a) - (2 * int (length (pr Coeff)) - 1)
             else int (dims Data ! a))" if "a < length (dims Data)" for a
    proof -
      from that have "a \<in> {0, 1, 2}" by (auto simp: ds)
      then show ?thesis using nl by (auto simp: ds ord)
    qed
    show "length (pr \<lparr>dims = [nl, n2, n3], pr = ?P\<rparr>) = prod_list (dims \<lparr>dims = [nl, n2, n3], pr = ?P\<rparr>)"
      by (simp add: length_stencil_loops)
    show "pr \<lparr>dims = [nl, n2, n3], pr = ?P\<rparr> ! sub2ind (dims \<lparr>dims = [nl, n2, n3], pr = ?P\<rparr>) is =
             (\<Sum>c<length (pr Coeff).
                pr Coeff ! c * (pr Data ! sub2ind (dims Data) (is[0 := is ! 0 + length (pr Coeff) + c])
                               - pr Data ! sub2ind (dims Data) (is[0 := is ! 0 + length (pr Coeff) - 1 - c]))
                  / dist')"
      if "list_all2 (<) is (dims \<lparr>dims = [nl, n2, n3], pr = ?P\<rparr>)" for "is"
    proof -
      from that obtain i j k where eq: "is = [i, j, k]" and "i < nl" "j < n2" "k < n3"
        by (auto simp: list_all2_less_3)
      then show ?thesis using entry [of i j k] by (simp only: eq ds ord mxArray.simps)
    qed
  qed
qed

lemma derivative_3d_dim2:
  fixes n1 n2 n3 order :: nat
  assumes ds: "dims Data = [n1, n2, n3]" and ord: "length (pr Coeff) = order"
    and ext: "2 * int order - 1 \<le> int n2"
  defines "nl \<equiv> nat (int n2 - (2 * int order - 1))"
  shows "is_derivative Data Coeff dist' 1
           \<lparr>dims = [n1, nl, n3],
            pr = stencil_loops (pr Data) (pr Coeff) dist' order n2 (List.product [0..<n3] [0..<n1])
                   (\<lambda>ki j. fst ki * (n1 * nl) + j * n1 + snd ki) (\<lambda>ki idx. fst ki * (n1 * n2) + idx * n1 + snd ki) (replicate (prod_list [n1, nl, n3]) 0)\<rparr>"
proof -
  let ?out = "\<lambda>ki j. fst ki * (n1 * nl) + j * n1 + snd ki"
  let ?inp = "\<lambda>ki idx. fst ki * (n1 * n2) + idx * n1 + snd ki"
  let ?P = "stencil_loops (pr Data) (pr Coeff) dist' order n2 (List.product [0..<n3] [0..<n1])
                   ?out ?inp (replicate (prod_list [n1, nl, n3]) 0)"
  have nl: "int nl = int n2 - (2 * int order - 1)" using ext by (simp add: nl_def)
  have entry: "?P ! sub2ind [n1, nl, n3] [i, j, k] =
             (\<Sum>c<order.
                pr Coeff ! c * (pr Data ! sub2ind [n1, n2, n3] ([i, j, k][1 := [i, j, k] ! 1 + order + c])
                               - pr Data ! sub2ind [n1, n2, n3] ([i, j, k][1 := [i, j, k] ! 1 + order - 1 - c]))
                  / dist')"
    if i: "i < n1" and j: "j < nl" and k: "k < n3" for i j k
  proof -
    have bound: "?out (k, i) j < prod_list [n1, nl, n3]"
      proof -
          have "fst (k, i) * (n1 * nl) + j * n1 + snd (k, i) = (k * nl + j) * n1 + i"
            by (simp add: algebra_simps)
          with grid_index_less3 [OF k j i] show ?thesis by simp
        qed
    have d: "distinct (List.product [0..<n3] [0..<n1])" by (simp add: distinct_product)
    have m: "(k, i) \<in> set (List.product [0..<n3] [0..<n1])" using i k by simp
    have t: "j < nat (int n2 - (2 * int order - 1))" using j by (simp add: nl_def)
    have inj: "a = (k, i) \<and> t = j"
        if "a \<in> set (List.product [0..<n3] [0..<n1])" "t < nat (int n2 - (2 * int order - 1))"
           "?out a t = ?out (k, i) j" for a t
        proof -
          from that(1) have s: "snd a < n1" by auto
          from that(2) have t: "t < nl" by (simp add: nl_def)
          have l: "fst a * (n1 * nl) + t * n1 + snd a = (fst a * nl + t) * n1 + snd a"
            by (simp add: algebra_simps)
          have r: "fst (k, i) * (n1 * nl) + j * n1 + snd (k, i) = (k * nl + j) * n1 + i"
            by (simp add: algebra_simps)
          from that(3) have "(fst a * nl + t) * n1 + snd a = (k * nl + j) * n1 + i"
            by (simp only: l r)
          from mixed_radix3 [OF s i t j this] show ?thesis by (cases a) simp
        qed
    have len: "?out (k, i) j < length (replicate (prod_list [n1, nl, n3]) (0::real))"
      using bound by simp
    have zero: "replicate (prod_list [n1, nl, n3]) (0::real) ! ?out (k, i) j = 0"
      using bound by simp
    have "?P ! ?out (k, i) j = replicate (prod_list [n1, nl, n3]) 0 ! ?out (k, i) j +
             (\<Sum>c<order. pr Coeff ! c * (pr Data ! ?inp (k, i) (order + c + j)
                                        - pr Data ! ?inp (k, i) (order - (c + 1) + j)) / dist')"
      using ext d m t inj len
      by (rule stencil_loops_nth [where out = ?out and inp = ?inp])
    also have "\<dots> = (\<Sum>c<order. pr Coeff ! c * (pr Data ! ?inp (k, i) (order + c + j)
                                        - pr Data ! ?inp (k, i) (order - (c + 1) + j)) / dist')"
      by (simp only: zero add.left_neutral)
    also have "\<dots> = (\<Sum>c<order.
                pr Coeff ! c * (pr Data ! sub2ind [n1, n2, n3] ([i, j, k][1 := [i, j, k] ! 1 + order + c])
                               - pr Data ! sub2ind [n1, n2, n3] ([i, j, k][1 := [i, j, k] ! 1 + order - 1 - c]))
                  / dist')"
    proof (rule sum.cong [OF refl])
      fix c assume "c \<in> {..<order}"
      then have c: "c < order" by simp
      have u1: "[i, j, k][1 := [i, j, k] ! 1 + order + c] = [i, j + order + c, k]" by simp
      have u2: "[i, j, k][1 := [i, j, k] ! 1 + order - 1 - c] = [i, j + order - 1 - c, k]" by simp
      have e1: "order + c + j = j + order + c" by simp
      have e2: "order - (c + 1) + j = j + order - 1 - c" using c by simp
      show "pr Coeff ! c * (pr Data ! ?inp (k, i) (order + c + j)
                                        - pr Data ! ?inp (k, i) (order - (c + 1) + j)) / dist'
         = pr Coeff ! c * (pr Data ! sub2ind [n1, n2, n3] ([i, j, k][1 := [i, j, k] ! 1 + order + c])
                               - pr Data ! sub2ind [n1, n2, n3] ([i, j, k][1 := [i, j, k] ! 1 + order - 1 - c]))
                  / dist'"
        by (simp only: u1 u2 sub2ind_3 fst_conv snd_conv e1 e2)
    qed
    finally show ?thesis by (simp only: sub2ind_3 fst_conv snd_conv)
  qed
  show ?thesis
    unfolding is_derivative_def
  proof (intro conjI allI impI)
    show "length (dims \<lparr>dims = [n1, nl, n3], pr = ?P\<rparr>) = length (dims Data)" by (simp add: ds)
    show "int (dims \<lparr>dims = [n1, nl, n3], pr = ?P\<rparr> ! a) =
            (if a = 1 then int (dims Data ! a) - (2 * int (length (pr Coeff)) - 1)
             else int (dims Data ! a))" if "a < length (dims Data)" for a
    proof -
      from that have "a \<in> {0, 1, 2}" by (auto simp: ds)
      then show ?thesis using nl by (auto simp: ds ord)
    qed
    show "length (pr \<lparr>dims = [n1, nl, n3], pr = ?P\<rparr>) = prod_list (dims \<lparr>dims = [n1, nl, n3], pr = ?P\<rparr>)"
      by (simp add: length_stencil_loops)
    show "pr \<lparr>dims = [n1, nl, n3], pr = ?P\<rparr> ! sub2ind (dims \<lparr>dims = [n1, nl, n3], pr = ?P\<rparr>) is =
             (\<Sum>c<length (pr Coeff).
                pr Coeff ! c * (pr Data ! sub2ind (dims Data) (is[1 := is ! 1 + length (pr Coeff) + c])
                               - pr Data ! sub2ind (dims Data) (is[1 := is ! 1 + length (pr Coeff) - 1 - c]))
                  / dist')"
      if "list_all2 (<) is (dims \<lparr>dims = [n1, nl, n3], pr = ?P\<rparr>)" for "is"
    proof -
      from that obtain i j k where eq: "is = [i, j, k]" and "i < n1" "j < nl" "k < n3"
        by (auto simp: list_all2_less_3)
      then show ?thesis using entry [of i j k] by (simp only: eq ds ord mxArray.simps)
    qed
  qed
qed

lemma derivative_3d_dim3:
  fixes n1 n2 n3 order :: nat
  assumes ds: "dims Data = [n1, n2, n3]" and ord: "length (pr Coeff) = order"
    and ext: "2 * int order - 1 \<le> int n3"
  defines "nl \<equiv> nat (int n3 - (2 * int order - 1))"
  shows "is_derivative Data Coeff dist' 2
           \<lparr>dims = [n1, n2, nl],
            pr = stencil_loops (pr Data) (pr Coeff) dist' order n3 (List.product [0..<n2] [0..<n1])
                   (\<lambda>ji k. k * (n1 * n2) + fst ji * n1 + snd ji) (\<lambda>ji idx. idx * (n1 * n2) + fst ji * n1 + snd ji) (replicate (prod_list [n1, n2, nl]) 0)\<rparr>"
proof -
  let ?out = "\<lambda>ji k. k * (n1 * n2) + fst ji * n1 + snd ji"
  let ?inp = "\<lambda>ji idx. idx * (n1 * n2) + fst ji * n1 + snd ji"
  let ?P = "stencil_loops (pr Data) (pr Coeff) dist' order n3 (List.product [0..<n2] [0..<n1])
                   ?out ?inp (replicate (prod_list [n1, n2, nl]) 0)"
  have nl: "int nl = int n3 - (2 * int order - 1)" using ext by (simp add: nl_def)
  have entry: "?P ! sub2ind [n1, n2, nl] [i, j, k] =
             (\<Sum>c<order.
                pr Coeff ! c * (pr Data ! sub2ind [n1, n2, n3] ([i, j, k][2 := [i, j, k] ! 2 + order + c])
                               - pr Data ! sub2ind [n1, n2, n3] ([i, j, k][2 := [i, j, k] ! 2 + order - 1 - c]))
                  / dist')"
    if i: "i < n1" and j: "j < n2" and k: "k < nl" for i j k
  proof -
    have bound: "?out (j, i) k < prod_list [n1, n2, nl]"
      proof -
          have "k * (n1 * n2) + fst (j, i) * n1 + snd (j, i) = (k * n2 + j) * n1 + i"
            by (simp add: algebra_simps)
          with grid_index_less3 [OF k j i] show ?thesis by simp
        qed
    have d: "distinct (List.product [0..<n2] [0..<n1])" by (simp add: distinct_product)
    have m: "(j, i) \<in> set (List.product [0..<n2] [0..<n1])" using i j by simp
    have t: "k < nat (int n3 - (2 * int order - 1))" using k by (simp add: nl_def)
    have inj: "a = (j, i) \<and> t = k"
        if "a \<in> set (List.product [0..<n2] [0..<n1])" "t < nat (int n3 - (2 * int order - 1))"
           "?out a t = ?out (j, i) k" for a t
        proof -
          from that(1) have s: "snd a < n1" and f: "fst a < n2" by auto
          have l: "t * (n1 * n2) + fst a * n1 + snd a = (t * n2 + fst a) * n1 + snd a"
            by (simp add: algebra_simps)
          have r: "k * (n1 * n2) + fst (j, i) * n1 + snd (j, i) = (k * n2 + j) * n1 + i"
            by (simp add: algebra_simps)
          from that(3) have "(t * n2 + fst a) * n1 + snd a = (k * n2 + j) * n1 + i"
            by (simp only: l r)
          from mixed_radix3 [OF s i f j this] show ?thesis by (cases a) simp
        qed
    have len: "?out (j, i) k < length (replicate (prod_list [n1, n2, nl]) (0::real))"
      using bound by simp
    have zero: "replicate (prod_list [n1, n2, nl]) (0::real) ! ?out (j, i) k = 0"
      using bound by simp
    have "?P ! ?out (j, i) k = replicate (prod_list [n1, n2, nl]) 0 ! ?out (j, i) k +
             (\<Sum>c<order. pr Coeff ! c * (pr Data ! ?inp (j, i) (order + c + k)
                                        - pr Data ! ?inp (j, i) (order - (c + 1) + k)) / dist')"
      using ext d m t inj len
      by (rule stencil_loops_nth [where out = ?out and inp = ?inp])
    also have "\<dots> = (\<Sum>c<order. pr Coeff ! c * (pr Data ! ?inp (j, i) (order + c + k)
                                        - pr Data ! ?inp (j, i) (order - (c + 1) + k)) / dist')"
      by (simp only: zero add.left_neutral)
    also have "\<dots> = (\<Sum>c<order.
                pr Coeff ! c * (pr Data ! sub2ind [n1, n2, n3] ([i, j, k][2 := [i, j, k] ! 2 + order + c])
                               - pr Data ! sub2ind [n1, n2, n3] ([i, j, k][2 := [i, j, k] ! 2 + order - 1 - c]))
                  / dist')"
    proof (rule sum.cong [OF refl])
      fix c assume "c \<in> {..<order}"
      then have c: "c < order" by simp
      have u1: "[i, j, k][2 := [i, j, k] ! 2 + order + c] = [i, j, k + order + c]" by simp
      have u2: "[i, j, k][2 := [i, j, k] ! 2 + order - 1 - c] = [i, j, k + order - 1 - c]" by simp
      have e1: "order + c + k = k + order + c" by simp
      have e2: "order - (c + 1) + k = k + order - 1 - c" using c by simp
      show "pr Coeff ! c * (pr Data ! ?inp (j, i) (order + c + k)
                                        - pr Data ! ?inp (j, i) (order - (c + 1) + k)) / dist'
         = pr Coeff ! c * (pr Data ! sub2ind [n1, n2, n3] ([i, j, k][2 := [i, j, k] ! 2 + order + c])
                               - pr Data ! sub2ind [n1, n2, n3] ([i, j, k][2 := [i, j, k] ! 2 + order - 1 - c]))
                  / dist'"
        by (simp only: u1 u2 sub2ind_3 fst_conv snd_conv e1 e2)
    qed
    finally show ?thesis by (simp only: sub2ind_3 fst_conv snd_conv)
  qed
  show ?thesis
    unfolding is_derivative_def
  proof (intro conjI allI impI)
    show "length (dims \<lparr>dims = [n1, n2, nl], pr = ?P\<rparr>) = length (dims Data)" by (simp add: ds)
    show "int (dims \<lparr>dims = [n1, n2, nl], pr = ?P\<rparr> ! a) =
            (if a = 2 then int (dims Data ! a) - (2 * int (length (pr Coeff)) - 1)
             else int (dims Data ! a))" if "a < length (dims Data)" for a
    proof -
      from that have "a \<in> {0, 1, 2}" by (auto simp: ds)
      then show ?thesis using nl by (auto simp: ds ord)
    qed
    show "length (pr \<lparr>dims = [n1, n2, nl], pr = ?P\<rparr>) = prod_list (dims \<lparr>dims = [n1, n2, nl], pr = ?P\<rparr>)"
      by (simp add: length_stencil_loops)
    show "pr \<lparr>dims = [n1, n2, nl], pr = ?P\<rparr> ! sub2ind (dims \<lparr>dims = [n1, n2, nl], pr = ?P\<rparr>) is =
             (\<Sum>c<length (pr Coeff).
                pr Coeff ! c * (pr Data ! sub2ind (dims Data) (is[2 := is ! 2 + length (pr Coeff) + c])
                               - pr Data ! sub2ind (dims Data) (is[2 := is ! 2 + length (pr Coeff) - 1 - c]))
                  / dist')"
      if "list_all2 (<) is (dims \<lparr>dims = [n1, n2, nl], pr = ?P\<rparr>)" for "is"
    proof -
      from that obtain i j k where eq: "is = [i, j, k]" and "i < n1" "j < n2" "k < nl"
        by (auto simp: list_all2_less_3)
      then show ?thesis using entry [of i j k] by (simp only: eq ds ord mxArray.simps)
    qed
  qed
qed


lemma wf_mxArray_length: "wf_mxArray A \<Longrightarrow> prod_list (dims A) = length (pr A)"
  by (simp add: wf_mxArray_def)

lemma diffOperator_closed:
  assumes da: "deref h data = Some Data" and co: "deref h coeff = Some Coeff"
    and wfc: "wf_mxArray Coeff"
    and nd: "length (dims Data) = 2 \<or> length (dims Data) = 3"
    and lo: "1 \<le> dim'" and hi: "dim' \<le> int (length (dims Data))"
    and ext: "2 * int (length (pr Coeff)) - 1 \<le> int (dims Data ! (nat dim' - 1))"
  shows "\<exists>D. diffOperator data coeff dist' dim' h = Inr (length h, h @ [Some D])
             \<and> is_derivative Data Coeff dist' (nat dim' - 1) D"
proof -
  let ?order = "length (pr Coeff)"
  have ord: "prod_list (dims Coeff) = ?order" using wfc by (rule wf_mxArray_length)
  from nd show ?thesis
  proof
    assume nd2: "length (dims Data) = 2"
    then obtain n1 n2 where ds: "dims Data = [n1, n2]" by (auto dest: length_2_cases)
    from lo hi nd2 consider "dim' = 1" | "dim' = 2" by linarith
    then show ?thesis
    proof cases
      case 1
      with ext ds have e: "2 * int ?order - 1 \<le> int n1" by simp
      have "diffOperator data coeff dist' dim' h = Inr (length h, h @ [Some
              \<lparr>dims = [nat (int n1 - (2 * int ?order - 1)), n2],
               pr = stencil_loops (pr Data) (pr Coeff) dist' ?order n1 [0..<n2]
                      (\<lambda>j i. j * nat (int n1 - (2 * int ?order - 1)) + i) (\<lambda>j idx. j * n1 + idx)
                      (replicate (nat (int n1 - (2 * int ?order - 1)) * n2) 0)\<rparr>])"
        using diffOperator_2d_dim1 [OF da co, of dim' dist'] nd2 1 e by (simp add: ds ord)
      moreover note derivative_2d_dim1 [OF ds refl e, of dist']
      ultimately show ?thesis using 1 by auto
    next
      case 2
      with ext ds have e: "2 * int ?order - 1 \<le> int n2" by simp
      have "diffOperator data coeff dist' dim' h = Inr (length h, h @ [Some
              \<lparr>dims = [n1, nat (int n2 - (2 * int ?order - 1))],
               pr = stencil_loops (pr Data) (pr Coeff) dist' ?order n2 [0..<n1]
                      (\<lambda>i j. j * n1 + i) (\<lambda>i idx. idx * n1 + i)
                      (replicate (n1 * nat (int n2 - (2 * int ?order - 1))) 0)\<rparr>])"
        using diffOperator_2d_dim2 [OF da co, of dim' dist'] nd2 2 e by (simp add: ds ord)
      moreover note derivative_2d_dim2 [OF ds refl e, of dist']
      ultimately show ?thesis using 2 by auto
    qed
  next
    assume nd3: "length (dims Data) = 3"
    then obtain n1 n2 n3 where ds: "dims Data = [n1, n2, n3]" by (auto dest: length_3_cases)
    from lo hi nd3 consider "dim' = 1" | "dim' = 2" | "dim' = 3" by linarith
    then show ?thesis
    proof cases
      case 1
      with ext ds have e: "2 * int ?order - 1 \<le> int n1" by simp
      have "diffOperator data coeff dist' dim' h = Inr (length h, h @ [Some
              \<lparr>dims = [nat (int n1 - (2 * int ?order - 1)), n2, n3],
               pr = stencil_loops (pr Data) (pr Coeff) dist' ?order n1 (List.product [0..<n3] [0..<n2])
                      (\<lambda>kj i. fst kj * (nat (int n1 - (2 * int ?order - 1)) * n2)
                                + snd kj * nat (int n1 - (2 * int ?order - 1)) + i)
                      (\<lambda>kj idx. fst kj * (n1 * n2) + snd kj * n1 + idx)
                      (replicate (prod_list [nat (int n1 - (2 * int ?order - 1)), n2, n3]) 0)\<rparr>])"
        using diffOperator_3d_dim1 [OF da co nd3, of dim' dist'] 1 e
        by (simp add: ds ord del: prod_list.Cons)
      moreover note derivative_3d_dim1 [OF ds refl e, of dist']
      ultimately show ?thesis using 1 by auto
    next
      case 2
      with ext ds have e: "2 * int ?order - 1 \<le> int n2" by simp
      have "diffOperator data coeff dist' dim' h = Inr (length h, h @ [Some
              \<lparr>dims = [n1, nat (int n2 - (2 * int ?order - 1)), n3],
               pr = stencil_loops (pr Data) (pr Coeff) dist' ?order n2 (List.product [0..<n3] [0..<n1])
                      (\<lambda>ki j. fst ki * (n1 * nat (int n2 - (2 * int ?order - 1))) + j * n1 + snd ki)
                      (\<lambda>ki idx. fst ki * (n1 * n2) + idx * n1 + snd ki)
                      (replicate (prod_list [n1, nat (int n2 - (2 * int ?order - 1)), n3]) 0)\<rparr>])"
        using diffOperator_3d_dim2 [OF da co nd3, of dim' dist'] 2 e
        by (simp add: ds ord del: prod_list.Cons)
      moreover note derivative_3d_dim2 [OF ds refl e, of dist']
      ultimately show ?thesis using 2 by auto
    next
      case 3
      with ext ds have e: "2 * int ?order - 1 \<le> int n3" by simp
      have "diffOperator data coeff dist' dim' h = Inr (length h, h @ [Some
              \<lparr>dims = [n1, n2, nat (int n3 - (2 * int ?order - 1))],
               pr = stencil_loops (pr Data) (pr Coeff) dist' ?order n3 (List.product [0..<n2] [0..<n1])
                      (\<lambda>ji k. k * (n1 * n2) + fst ji * n1 + snd ji)
                      (\<lambda>ji idx. idx * (n1 * n2) + fst ji * n1 + snd ji)
                      (replicate (prod_list [n1, n2, nat (int n3 - (2 * int ?order - 1))]) 0)\<rparr>])"
        using diffOperator_3d_dim3 [OF da co nd3, of dim' dist'] 3 e
        by (simp add: ds ord del: prod_list.Cons)
      moreover note derivative_3d_dim3 [OF ds refl e, of dist']
      ultimately show ?thesis using 3 by auto
    qed
  qed
qed


text \<open>
  Claim C2, amended. For a live, well-formed 2-D or 3-D array, a coefficient vector of length
  \<open>order\<close>, a positive spacing, a valid axis and an extent along that axis of at least
  \<open>2 * order - 1\<close>, \<open>diffOperator\<close> returns a new array and changes no array that existed
  before. The extent of the result along the axis is the extent of the input minus
  \<open>2 * order - 1\<close>, the other extents are those of the input, and the entry at each index
  \<open>is\<close> of the result is
  \<open>\<Sum>k<order. coeff[k] * (data[p + order + k] - data[p + order - 1 - k]) / dist\<close>,
  where \<open>p\<close> is the component of \<open>is\<close> along the axis and the other components stay fixed.
\<close>

theorem diffOperator_derivative:
  assumes "deref h data = Some Data" and "deref h coeff = Some Coeff"
    and "wf_mxArray Data" and "wf_mxArray Coeff"
    and "length (dims Data) = 2 \<or> length (dims Data) = 3"
    and "0 < dist'"
    and "1 \<le> dim'" and "dim' \<le> int (length (dims Data))"
    and "2 * int (length (pr Coeff)) - 1 \<le> int (dims Data ! (nat dim' - 1))"
  shows "\<exists>d h' D. diffOperator data coeff dist' dim' h = Inr (d, h')
           \<and> deref h d = None \<and> deref h' d = Some D
           \<and> (\<forall>a<length h. deref h' a = deref h a)
           \<and> length (dims D) = length (dims Data)
           \<and> (\<forall>a<length (dims Data).
                 int (dims D ! a) =
                   (if a = nat dim' - 1 then int (dims Data ! a) - (2 * int (length (pr Coeff)) - 1)
                    else int (dims Data ! a)))
           \<and> length (pr D) = prod_list (dims D)
           \<and> (\<forall>is. list_all2 (<) is (dims D) \<longrightarrow>
                 pr D ! sub2ind (dims D) is =
                   (\<Sum>k<length (pr Coeff).
                      pr Coeff ! k *
                        (pr Data ! sub2ind (dims Data)
                                     (is[nat dim' - 1 := is ! (nat dim' - 1) + length (pr Coeff) + k])
                         - pr Data ! sub2ind (dims Data)
                                     (is[nat dim' - 1 := is ! (nat dim' - 1) + length (pr Coeff) - 1 - k]))
                        / dist'))"
proof -
  from diffOperator_closed [OF assms(1,2,4,5,7,8,9), of dist']
  obtain D where r: "diffOperator data coeff dist' dim' h = Inr (length h, h @ [Some D])"
    and der: "is_derivative Data Coeff dist' (nat dim' - 1) D"
    by (elim exE conjE)
  note der' = der [unfolded is_derivative_def]
  note p1 = der' [THEN conjunct1]
  note p2 = der' [THEN conjunct2, THEN conjunct1]
  note p3 = der' [THEN conjunct2, THEN conjunct2, THEN conjunct1]
  note p4 = der' [THEN conjunct2, THEN conjunct2, THEN conjunct2]
  have fresh: "deref h (length h) = None" by (simp add: deref_beyond)
  have new: "deref (h @ [Some D]) (length h) = Some D" by (rule deref_append_new)
  have old: "\<forall>a<length h. deref (h @ [Some D]) a = deref h a"
    by (simp add: deref_append_old)
  show ?thesis
    by (intro exI [of _ "length h"] exI [of _ "h @ [Some D]"] exI [of _ D] conjI
          r fresh new old p1 p2 p3 p4)
qed

theorem diffOperator_derivative_witness:
  "\<exists>d h' D. diffOperator 0 1 2 1 [Some \<lparr>dims = [4, 1], pr = [1, 4, 9, 16]\<rparr>,
                                     Some \<lparr>dims = [1, 1], pr = [1]\<rparr>] = Inr (d, h')
     \<and> deref h' d = Some D \<and> dims D ! 0 = 3 \<and> length (pr D) = prod_list (dims D)
     \<and> pr D ! sub2ind (dims D) [1, 0] = 5 / 2"
proof -
  let ?Data = "\<lparr>dims = [4, 1], pr = [1, 4, 9, 16]\<rparr>" and ?Coeff = "\<lparr>dims = [1, 1], pr = [1]\<rparr>"
  let ?h = "[Some ?Data, Some ?Coeff]"
  have a: "deref ?h 0 = Some ?Data" and b: "deref ?h 1 = Some ?Coeff"
    and c: "wf_mxArray ?Data" and d: "wf_mxArray ?Coeff"
    and e: "length (dims ?Data) = 2 \<or> length (dims ?Data) = 3"
    and f: "(0::real) < 2" and g: "(1::int) \<le> 1" and i: "(1::int) \<le> int (length (dims ?Data))"
    and j: "2 * int (length (pr ?Coeff)) - 1 \<le> int (dims ?Data ! (nat 1 - 1))"
    by (simp_all add: deref_def wf_mxArray_def)
  from diffOperator_derivative [OF a b c d e f g i j]
  obtain r h' D where 1: "diffOperator 0 1 2 1 ?h = Inr (r, h')" and 2: "deref h' r = Some D"
    and 3: "length (dims D) = length (dims ?Data)"
    and 4: "\<forall>a<length (dims ?Data).
                 int (dims D ! a) =
                   (if a = nat 1 - 1 then int (dims ?Data ! a) - (2 * int (length (pr ?Coeff)) - 1)
                    else int (dims ?Data ! a))"
    and 5: "length (pr D) = prod_list (dims D)"
    and 6: "\<forall>is. list_all2 (<) is (dims D) \<longrightarrow>
                 pr D ! sub2ind (dims D) is =
                   (\<Sum>k<length (pr ?Coeff).
                      pr ?Coeff ! k *
                        (pr ?Data ! sub2ind (dims ?Data)
                                     (is[nat 1 - 1 := is ! (nat 1 - 1) + length (pr ?Coeff) + k])
                         - pr ?Data ! sub2ind (dims ?Data)
                                     (is[nat 1 - 1 := is ! (nat 1 - 1) + length (pr ?Coeff) - 1 - k]))
                        / 2)"
    by (elim exE conjE)
  from 4 have d0: "dims D ! 0 = 3" and d1: "dims D ! 1 = 1"
    by (auto dest: spec [of _ 0] spec [of _ "1::nat"])
  from 3 have "length (dims D) = 2" by simp
  then obtain x y where xy: "dims D = [x, y]" by (auto dest: length_2_cases)
  with d0 d1 have ds: "dims D = [3, 1]" by simp
  have "list_all2 (<) [1, 0] (dims D)" by (simp add: ds)
  with 6 have "pr D ! sub2ind (dims D) [1, 0] =
                   (\<Sum>k<length (pr ?Coeff).
                      pr ?Coeff ! k *
                        (pr ?Data ! sub2ind (dims ?Data)
                                     ([1, 0][nat 1 - 1 := [1, 0] ! (nat 1 - 1) + length (pr ?Coeff) + k])
                         - pr ?Data ! sub2ind (dims ?Data)
                                     ([1, 0][nat 1 - 1 := [1, 0] ! (nat 1 - 1) + length (pr ?Coeff) - 1 - k]))
                        / 2)"
    by blast
  also have "\<dots> = 5 / 2" by simp
  finally have 7: "pr D ! sub2ind (dims D) [1, 0] = 5 / 2" .
  from 1 2 d0 5 7 show ?thesis
    by (intro exI [of _ r] exI [of _ h'] exI [of _ D] conjI)
qed

text \<open>
  Claim C2 as stated covers every input array. On an axis shorter than \<open>2 * order - 1\<close> no
  array of the claimed extent exists: for a 1-by-1 array and two coefficients the claimed extent
  is \<open>1 - 3\<close>; the source computes \<open>n1 - l\<close> in the unsigned type \<open>mwSize\<close> and asks for
  an array of that many rows.
\<close>

theorem diffOperator_short_axis_counterexample:
  "diffOperator 0 1 1 1 [Some \<lparr>dims = [1, 1], pr = [5]\<rparr>, Some \<lparr>dims = [1, 2], pr = [1, 1]\<rparr>]
     = Inl Undefined"
  by (simp add: diffOperator_def deref_def Let_def mxGetNumberOfDimensions_def
        mxGetNumberOfElements_def)


lemma diffOperator_not_InvalidArgument:
  "diffOperator data coeff dist' dim' h \<noteq> Inl InvalidArgument"
  unfolding diffOperator_def Let_def
  by (simp split: option.split prod.split)

lemma diffOperator_clamp:
  assumes "deref h data = Some Data" and "deref h coeff = Some Coeff"
    and "length (dims Data) = 2 \<or> length (dims Data) = 3"
  shows "diffOperator data coeff dist' dim' h
           = diffOperator data coeff dist' (max 1 (min dim' (int (length (dims Data))))) h"
proof -
  consider "dim' < 1" | "1 \<le> dim'" "dim' \<le> int (length (dims Data))"
    | "int (length (dims Data)) < dim'" by linarith
  then show ?thesis
  proof cases
    case 1
    then have c: "max 1 (min dim' (int (length (dims Data)))) = 1" using assms(3) by auto
    show ?thesis unfolding c using 1 unfolding diffOperator_def by (simp add: assms(1,2))
  next
    case 2
    then have c: "max 1 (min dim' (int (length (dims Data)))) = dim'" by auto
    show ?thesis unfolding c ..
  next
    case 3
    then have c: "max 1 (min dim' (int (length (dims Data)))) = int (length (dims Data))"
      using assms(3) by auto
    from assms(3) show ?thesis
    proof
      assume nd: "length (dims Data) = 2"
      then have "mxGetNumberOfDimensions Data \<le> 2" by (simp add: mxGetNumberOfDimensions_def)
      then show ?thesis unfolding c nd using 3 nd unfolding diffOperator_def
        by (simp add: assms(1,2) Let_def)
    next
      assume nd: "length (dims Data) = 3"
      then have "\<not> mxGetNumberOfDimensions Data \<le> 2" "\<not> 3 < mxGetNumberOfDimensions Data"
        by (simp_all add: mxGetNumberOfDimensions_def)
      then show ?thesis unfolding c nd using 3 nd unfolding diffOperator_def
        by (simp add: assms(1,2) Let_def)
    qed
  qed
qed

text \<open>
  Claim C6, amended. The axis that \<open>diffOperator\<close> works along is the axis index clamped
  to the range from 1 to the number of dimensions. Whenever \<open>2 * order - 1 \<le> extent\<close>
  along that axis, \<open>diffOperator\<close> returns the derivative array, whose extent along the
  axis is \<open>extent - (2 * order - 1)\<close>; for \<open>2 * order - 1 = extent\<close> that array is empty,
  and the call does not fail. Nothing is stated for \<open>2 * order - 1 > extent\<close>.
\<close>

theorem diffOperator_sufficient_extent:
  assumes "deref h data = Some Data" and "deref h coeff = Some Coeff"
    and "wf_mxArray Coeff"
    and "length (dims Data) = 2 \<or> length (dims Data) = 3"
    and "ax = nat (max 1 (min dim' (int (length (dims Data))))) - 1"
    and "2 * int (length (pr Coeff)) - 1 \<le> int (dims Data ! ax)"
  shows "\<exists>d h' D. diffOperator data coeff dist' dim' h = Inr (d, h') \<and> deref h' d = Some D
           \<and> is_derivative Data Coeff dist' ax D
           \<and> int (dims D ! ax) = int (dims Data ! ax) - (2 * int (length (pr Coeff)) - 1)
           \<and> length (pr D) = prod_list (dims D)
           \<and> (2 * int (length (pr Coeff)) - 1 = int (dims Data ! ax) \<longrightarrow> pr D = [])"
proof -
  define c where "c = max 1 (min dim' (int (length (dims Data))))"
  have lo: "1 \<le> c" and hi: "c \<le> int (length (dims Data))"
    using assms(4) by (auto simp: c_def)
  have axc: "ax = nat c - 1" using assms(5) by (simp only: c_def)
  have ext: "2 * int (length (pr Coeff)) - 1 \<le> int (dims Data ! (nat c - 1))"
    using assms(6) by (simp only: axc)
  have cl: "diffOperator data coeff dist' dim' h = diffOperator data coeff dist' c h"
    unfolding c_def using assms(1,2,4) by (rule diffOperator_clamp)
  from diffOperator_closed [OF assms(1,2,3,4) lo hi ext, of dist']
  obtain D where r0: "diffOperator data coeff dist' c h = Inr (length h, h @ [Some D])"
    and der0: "is_derivative Data Coeff dist' (nat c - 1) D"
    by (elim exE conjE)
  from r0 have r: "diffOperator data coeff dist' dim' h = Inr (length h, h @ [Some D])"
    by (simp only: cl)
  from der0 have der: "is_derivative Data Coeff dist' ax D" by (simp only: axc)
  note der' = der [unfolded is_derivative_def]
  have ax: "ax < length (dims Data)" using assms(4) lo hi by (auto simp: axc)
  from der' [THEN conjunct2, THEN conjunct1] ax
  have e: "int (dims D ! ax) = int (dims Data ! ax) - (2 * int (length (pr Coeff)) - 1)"
    by simp
  note l = der' [THEN conjunct2, THEN conjunct2, THEN conjunct1]
  have new: "deref (h @ [Some D]) (length h) = Some D" by (rule deref_append_new)
  have emp: "2 * int (length (pr Coeff)) - 1 = int (dims Data ! ax) \<longrightarrow> pr D = []"
  proof
    assume "2 * int (length (pr Coeff)) - 1 = int (dims Data ! ax)"
    with e have z: "dims D ! ax = 0" by simp
    have "ax < length (dims D)" using ax der' [THEN conjunct1] by simp
    then have "dims D ! ax \<in> set (dims D)" by (rule nth_mem)
    with z have "0 \<in> set (dims D)" by simp
    then have "prod_list (dims D) = 0" by (simp add: prod_list_zero_iff)
    with l show "pr D = []" by simp
  qed
  show ?thesis
    by (intro exI [of _ "length h"] exI [of _ "h @ [Some D]"] exI [of _ D] conjI
          r new der e l emp)
qed

theorem diffOperator_sufficient_extent_witness:
  "\<exists>d h' D. diffOperator 0 1 1 5 [Some \<lparr>dims = [2, 3], pr = [1, 2, 3, 4, 5, 6]\<rparr>,
                                     Some \<lparr>dims = [2, 1], pr = [1, 1]\<rparr>] = Inr (d, h')
          \<and> deref h' d = Some D \<and> dims D ! 1 = 0 \<and> length (pr D) = prod_list (dims D)
          \<and> pr D = []"
proof -
  let ?Data = "\<lparr>dims = [2, 3], pr = [1, 2, 3, 4, 5, 6]\<rparr>" and ?Coeff = "\<lparr>dims = [2, 1], pr = [1, 1]\<rparr>"
  let ?h = "[Some ?Data, Some ?Coeff]"
  have a: "deref ?h 0 = Some ?Data" and b: "deref ?h 1 = Some ?Coeff"
    and d: "wf_mxArray ?Coeff"
    and e: "length (dims ?Data) = 2 \<or> length (dims ?Data) = 3"
    and g: "(1::nat) = nat (max 1 (min 5 (int (length (dims ?Data))))) - 1"
    and j: "2 * int (length (pr ?Coeff)) - 1 \<le> int (dims ?Data ! 1)"
    by (simp_all add: deref_def wf_mxArray_def)
  from diffOperator_sufficient_extent [OF a b d e g j, of 1]
  obtain r h' D where 1: "diffOperator 0 1 1 5 ?h = Inr (r, h')" and 2: "deref h' r = Some D"
    and 3: "int (dims D ! 1) = int (dims ?Data ! 1) - (2 * int (length (pr ?Coeff)) - 1)"
    and 4: "length (pr D) = prod_list (dims D)"
    and 5: "2 * int (length (pr ?Coeff)) - 1 = int (dims ?Data ! 1) \<longrightarrow> pr D = []"
    by (elim exE conjE)
  from 3 have 6: "dims D ! 1 = 0" by simp
  from 5 have 7: "pr D = []" by simp
  from 1 2 6 4 7 show ?thesis by (intro exI [of _ r] exI [of _ h'] exI [of _ D] conjI)
qed

text \<open>
  Claim C6 as stated fails already where \<open>2 * order - 1 = extent\<close>: one coefficient on an axis
  of extent 1 yields an empty array and no error.
\<close>

theorem diffOperator_equal_extent_counterexample:
  "diffOperator 0 1 1 1 [Some \<lparr>dims = [1, 1], pr = [5]\<rparr>, Some \<lparr>dims = [1, 1], pr = [1]\<rparr>]
     = Inr (2, [Some \<lparr>dims = [1, 1], pr = [5]\<rparr>, Some \<lparr>dims = [1, 1], pr = [1]\<rparr>,
                Some \<lparr>dims = [0, 1], pr = []\<rparr>])"
proof -
  let ?Data = "\<lparr>dims = [1, 1], pr = [5]\<rparr>" and ?Coeff = "\<lparr>dims = [1, 1], pr = [1]\<rparr>"
  let ?h = "[Some ?Data, Some ?Coeff]"
  have a: "deref ?h 0 = Some ?Data" and b: "deref ?h 1 = Some ?Coeff"
    by (simp_all add: deref_def)
  have e: "stencil_loops p c x y z w f g [] = []" for p c x y z and w :: "nat list" and f g
    using length_stencil_loops [of p c x y z w f g "[]"] by simp
  from diffOperator_2d_dim1 [OF a b, of 1 1] show ?thesis
    by (simp add: e)
qed

text \<open>
  Claim C10, amended. On a 2-D array \<open>diffOperator\<close> rejects no axis index: an index below 1
  behaves as axis 1 and an index of 2 or more behaves as axis 2. In both cases the derivative
  array along that axis is returned whenever the extent along that axis is at least
  \<open>2 * order - 1\<close>.
\<close>

theorem diffOperator_axis_2d:
  assumes "deref h data = Some Data" and "deref h coeff = Some Coeff"
    and "wf_mxArray Coeff" and "length (dims Data) = 2"
  shows "(dim' < 1 \<longrightarrow> diffOperator data coeff dist' dim' h = diffOperator data coeff dist' 1 h)
       \<and> (2 \<le> dim' \<longrightarrow> diffOperator data coeff dist' dim' h = diffOperator data coeff dist' 2 h)
       \<and> diffOperator data coeff dist' dim' h \<noteq> Inl InvalidArgument
       \<and> (dim' < 1 \<and> 2 * int (length (pr Coeff)) - 1 \<le> int (dims Data ! 0) \<longrightarrow>
            (\<exists>D. diffOperator data coeff dist' dim' h = Inr (length h, h @ [Some D])
                  \<and> is_derivative Data Coeff dist' 0 D))
       \<and> (2 \<le> dim' \<and> 2 * int (length (pr Coeff)) - 1 \<le> int (dims Data ! 1) \<longrightarrow>
            (\<exists>D. diffOperator data coeff dist' dim' h = Inr (length h, h @ [Some D])
                  \<and> is_derivative Data Coeff dist' 1 D))"
proof -
  have nd: "mxGetNumberOfDimensions Data \<le> 2"
    using assms(4) by (simp add: mxGetNumberOfDimensions_def)
  have low: "diffOperator data coeff dist' dim' h = diffOperator data coeff dist' 1 h" if "dim' < 1"
    using that unfolding diffOperator_def by (simp add: assms(1,2))
  have high: "diffOperator data coeff dist' dim' h = diffOperator data coeff dist' 2 h" if "2 \<le> dim'"
    using that nd unfolding diffOperator_def by (simp add: assms(1,2) Let_def)
  have one: "\<exists>D. diffOperator data coeff dist' 1 h = Inr (length h, h @ [Some D])
                  \<and> is_derivative Data Coeff dist' 0 D"
    if "2 * int (length (pr Coeff)) - 1 \<le> int (dims Data ! 0)"
    using diffOperator_closed [OF assms(1,2,3), of 1 dist'] that assms(4) by simp
  have two: "\<exists>D. diffOperator data coeff dist' 2 h = Inr (length h, h @ [Some D])
                  \<and> is_derivative Data Coeff dist' 1 D"
    if "2 * int (length (pr Coeff)) - 1 \<le> int (dims Data ! 1)"
    using diffOperator_closed [OF assms(1,2,3), of 2 dist'] that assms(4) by simp
  show ?thesis
  proof (intro conjI impI)
    show "diffOperator data coeff dist' dim' h = diffOperator data coeff dist' 1 h" if "dim' < 1"
      using that by (rule low)
    show "diffOperator data coeff dist' dim' h = diffOperator data coeff dist' 2 h" if "2 \<le> dim'"
      using that by (rule high)
    show "diffOperator data coeff dist' dim' h \<noteq> Inl InvalidArgument"
      by (rule diffOperator_not_InvalidArgument)
    show "\<exists>D. diffOperator data coeff dist' dim' h = Inr (length h, h @ [Some D])
                  \<and> is_derivative Data Coeff dist' 0 D"
      if "dim' < 1 \<and> 2 * int (length (pr Coeff)) - 1 \<le> int (dims Data ! 0)"
      using that one low by simp
    show "\<exists>D. diffOperator data coeff dist' dim' h = Inr (length h, h @ [Some D])
                  \<and> is_derivative Data Coeff dist' 1 D"
      if "2 \<le> dim' \<and> 2 * int (length (pr Coeff)) - 1 \<le> int (dims Data ! 1)"
      using that two high by simp
  qed
qed

theorem diffOperator_axis_2d_witness:
  "diffOperator 0 1 1 (- 4) [Some \<lparr>dims = [2, 2], pr = [1, 2, 3, 4]\<rparr>, Some \<lparr>dims = [1, 1], pr = [1]\<rparr>]
     = diffOperator 0 1 1 1 [Some \<lparr>dims = [2, 2], pr = [1, 2, 3, 4]\<rparr>, Some \<lparr>dims = [1, 1], pr = [1]\<rparr>]
   \<and> diffOperator 0 1 1 3 [Some \<lparr>dims = [2, 2], pr = [1, 2, 3, 4]\<rparr>, Some \<lparr>dims = [1, 1], pr = [1]\<rparr>]
     = diffOperator 0 1 1 2 [Some \<lparr>dims = [2, 2], pr = [1, 2, 3, 4]\<rparr>, Some \<lparr>dims = [1, 1], pr = [1]\<rparr>]
   \<and> (\<exists>D. diffOperator 0 1 1 3 [Some \<lparr>dims = [2, 2], pr = [1, 2, 3, 4]\<rparr>, Some \<lparr>dims = [1, 1], pr = [1]\<rparr>]
            = Inr (2, [Some \<lparr>dims = [2, 2], pr = [1, 2, 3, 4]\<rparr>, Some \<lparr>dims = [1, 1], pr = [1]\<rparr>, Some D])
          \<and> dims D ! 1 = 1)"
proof -
  let ?Data = "\<lparr>dims = [2, 2], pr = [1, 2, 3, 4]\<rparr>" and ?Coeff = "\<lparr>dims = [1, 1], pr = [1]\<rparr>"
  let ?h = "[Some ?Data, Some ?Coeff]"
  have a: "deref ?h 0 = Some ?Data" and b: "deref ?h 1 = Some ?Coeff"
    and c: "wf_mxArray ?Coeff" and d: "length (dims ?Data) = 2"
    by (simp_all add: deref_def wf_mxArray_def)
  note t = diffOperator_axis_2d [OF a b c d, of _ 1]
  from t [of "- 4"] have 1: "diffOperator 0 1 1 (- 4) ?h = diffOperator 0 1 1 1 ?h" by simp
  from t [of 3] have 2: "diffOperator 0 1 1 3 ?h = diffOperator 0 1 1 2 ?h" by simp
  from t [of 3, THEN conjunct2, THEN conjunct2, THEN conjunct2, THEN conjunct2]
  have "\<exists>D. diffOperator 0 1 1 3 ?h = Inr (length ?h, ?h @ [Some D])
              \<and> is_derivative ?Data ?Coeff 1 1 D"
    by simp
  then obtain D where 3: "diffOperator 0 1 1 3 ?h = Inr (length ?h, ?h @ [Some D])"
    and der: "is_derivative ?Data ?Coeff 1 1 D"
    by (elim exE conjE)
  from der have "int (dims D ! 1) = 1" unfolding is_derivative_def by auto
  then have 4: "dims D ! 1 = 1" by simp
  from 1 2 3 4 show ?thesis by auto
qed

text \<open>
  Claim C10 as stated promises the derivative array for every 2-D input. On a 1-by-1 array
  with two coefficients an axis index of 0 behaves as axis 1 and an axis index of 3 as axis 2,
  and on either axis the extent 1 is below \<open>2 * order - 1 = 3\<close>: no derivative array is
  returned.
\<close>

theorem diffOperator_axis_2d_short_counterexample:
  "diffOperator 0 1 1 0 [Some \<lparr>dims = [1, 1], pr = [5]\<rparr>, Some \<lparr>dims = [1, 2], pr = [1, 1]\<rparr>]
     = Inl Undefined
   \<and> diffOperator 0 1 1 3 [Some \<lparr>dims = [1, 1], pr = [5]\<rparr>, Some \<lparr>dims = [1, 2], pr = [1, 1]\<rparr>]
     = Inl Undefined"
  by (simp add: diffOperator_def deref_def Let_def mxGetNumberOfDimensions_def
        mxGetNumberOfElements_def)

section \<open>Gaussian elimination solves regular systems\<close>

lemma dot_Cons: "dot (a # as) xs = (case xs of [] \<Rightarrow> 0 | x # xs' \<Rightarrow> a * x + dot as xs')"
  by (cases xs) simp_all

lemma dot_hd_tl: "r \<noteq> [] \<Longrightarrow> dot r (x # xs) = hd r * x + dot (tl r) xs"
  by (cases r) simp_all

lemma dot_eliminated:
  "length u = length v \<Longrightarrow> dot (map2 (\<lambda>a c. a - f * c) u v) xs = dot u xs - f * dot v xs"
proof (induction u v arbitrary: xs rule: list_induct2)
  case Nil
  then show ?case by simp
next
  case (Cons a u c v)
  then show ?case by (cases xs) (simp_all add: algebra_simps)
qed

lemma dot_zeros: "dot r (replicate n 0) = 0"
proof (induction r arbitrary: n)
  case Nil
  then show ?case by simp
next
  case (Cons a r)
  then show ?case by (cases n) simp_all
qed

lemma find_pivot_Some_all:
  "find_pivot es = Some (p, rest) \<Longrightarrow>
     hd (fst p) \<noteq> 0 \<and> set es = insert p (set rest) \<and> length es = Suc (length rest)"
proof (induction es arbitrary: rest)
  case Nil
  then show ?case by simp
next
  case (Cons e es)
  show ?case
  proof (cases "hd (fst e) \<noteq> 0")
    case True
    with Cons.prems show ?thesis by auto
  next
    case False
    with Cons.prems obtain rest' where r: "find_pivot es = Some (p, rest')" and "rest = e # rest'"
      by (auto split: option.splits)
    with Cons.IH [OF r] show ?thesis by auto
  qed
qed

lemma find_pivot_Some:
  assumes "find_pivot es = Some (p, rest)"
  shows "hd (fst p) \<noteq> 0" and "set es = insert p (set rest)" and "length es = Suc (length rest)"
  using find_pivot_Some_all [OF assms] by simp_all

lemma find_pivot_None: "find_pivot es = None \<Longrightarrow> e \<in> set es \<Longrightarrow> hd (fst e) = 0"
  by (induction es) (auto split: if_splits option.splits)

lemma eliminate_length:
  "length (fst e) = Suc n \<Longrightarrow> length (fst p) = Suc n \<Longrightarrow> length (fst (eliminate p e)) = n"
  by (simp add: eliminate_def Let_def)

text \<open>How an equation, its eliminated form and the pivot equation are related at any point.\<close>

lemma eliminate_dot:
  assumes e: "length (fst e) = Suc n" and p: "length (fst p) = Suc n" and h: "hd (fst p) \<noteq> 0"
  shows "dot (fst e) (x # xs) - snd e
           = (dot (fst (eliminate p e)) xs - snd (eliminate p e))
             + hd (fst e) / hd (fst p) * (dot (fst p) (x # xs) - snd p)"
proof -
  from e p have ne: "fst e \<noteq> []" "fst p \<noteq> []" by auto
  have l: "length (tl (fst e)) = length (tl (fst p))" using e p by simp
  define f where "f = hd (fst e) / hd (fst p)"
  have fh: "f * hd (fst p) = hd (fst e)" using h by (simp add: f_def)
  have 1: "dot (fst (eliminate p e)) xs = dot (tl (fst e)) xs - f * dot (tl (fst p)) xs"
    unfolding eliminate_def Let_def fst_conv f_def [symmetric] by (rule dot_eliminated [OF l])
  have 2: "snd (eliminate p e) = snd e - f * snd p"
    by (simp add: eliminate_def Let_def f_def)
  have 3: "dot (fst e) (x # xs) = hd (fst e) * x + dot (tl (fst e)) xs"
    by (rule dot_hd_tl [OF ne(1)])
  have 4: "dot (fst p) (x # xs) = hd (fst p) * x + dot (tl (fst p)) xs"
    by (rule dot_hd_tl [OF ne(2)])
  have "dot (fst e) (x # xs) - snd e
          = (dot (fst (eliminate p e)) xs - snd (eliminate p e))
            + f * (dot (fst p) (x # xs) - snd p)"
    unfolding 1 2 3 4 using fh [symmetric] by (simp add: algebra_simps)
  then show ?thesis by (simp only: f_def)
qed

lemma solve_sound:
  assumes "solve eqs n = Some xs" and "length eqs = n" and "\<forall>e\<in>set eqs. length (fst e) = n"
  shows "length xs = n \<and> (\<forall>e\<in>set eqs. dot (fst e) xs = snd e)"
  using assms
proof (induction n arbitrary: eqs xs)
  case 0
  then show ?case by simp
next
  case (Suc n)
  from Suc.prems(1) obtain p rest ys where
    piv: "find_pivot eqs = Some (p, rest)"
    and sub: "solve (map (eliminate p) rest) n = Some ys"
    and xs: "xs = (snd p - dot (tl (fst p)) ys) / hd (fst p) # ys"
    by (auto split: option.splits)
  note fp = find_pivot_Some [OF piv]
  have pin: "p \<in> set eqs" using fp(2) by simp
  have plen: "length (fst p) = Suc n" using Suc.prems(3) pin by simp
  have rlen: "\<forall>e\<in>set rest. length (fst e) = Suc n" using Suc.prems(3) fp(2) by simp
  have "length (map (eliminate p) rest) = n" using fp(3) Suc.prems(2) by simp
  moreover have "\<forall>e\<in>set (map (eliminate p) rest). length (fst e) = n"
    using rlen plen by (auto simp: eliminate_length)
  ultimately have IH: "length ys = n \<and> (\<forall>e\<in>set (map (eliminate p) rest). dot (fst e) ys = snd e)"
    using sub by (intro Suc.IH)
  let ?x = "(snd p - dot (tl (fst p)) ys) / hd (fst p)"
  have pne: "fst p \<noteq> []" using plen by auto
  have peq: "dot (fst p) (?x # ys) = snd p"
    using fp(1) by (simp add: dot_hd_tl [OF pne])
  have all: "dot (fst e) (?x # ys) = snd e" if e: "e \<in> set eqs" for e
  proof (cases "e = p")
    case True
    then show ?thesis using peq by (simp only:)
  next
    case False
    with e fp(2) have er: "e \<in> set rest" by blast
    then have el: "length (fst e) = Suc n" using rlen by blast
    from er have "eliminate p e \<in> set (map (eliminate p) rest)" by simp
    with IH have z: "dot (fst (eliminate p e)) ys = snd (eliminate p e)" by blast
    have "dot (fst e) (?x # ys) - snd e
            = (dot (fst (eliminate p e)) ys - snd (eliminate p e))
              + hd (fst e) / hd (fst p) * (dot (fst p) (?x # ys) - snd p)"
      by (rule eliminate_dot [OF el plen fp(1)])
    then have "dot (fst e) (?x # ys) - snd e = 0"
      by (simp only: z peq diff_self mult_zero_right add.left_neutral)
    then show ?thesis by (simp only: right_minus_eq)
  qed
  have "length xs = Suc n" using IH by (simp add: xs)
  moreover have "\<forall>e\<in>set eqs. dot (fst e) xs = snd e"
    unfolding xs using all by blast
  ultimately show ?case by (rule conjI)
qed

lemma solve_complete:
  assumes "\<forall>e\<in>set eqs. length (fst e) = n" and "regular eqs n"
  shows "solve eqs n \<noteq> None"
  using assms
proof (induction n arbitrary: eqs)
  case 0
  then show ?case by simp
next
  case (Suc n)
  have "find_pivot eqs \<noteq> None"
  proof
    assume none: "find_pivot eqs = None"
    have "dot (fst e) (1 # replicate n 0) = 0" if e: "e \<in> set eqs" for e
    proof -
      from e Suc.prems(1) have "fst e \<noteq> []" by auto
      then show ?thesis
        using find_pivot_None [OF none e] by (simp add: dot_hd_tl dot_zeros)
    qed
    then have "length (1 # replicate n (0::real)) = Suc n
                 \<and> (\<forall>e\<in>set eqs. dot (fst e) (1 # replicate n 0) = 0)"
      by simp
    with Suc.prems(2) [unfolded regular_def]
    have "1 # replicate n 0 = replicate (Suc n) (0::real)" by blast
    then show False by simp
  qed
  then obtain p rest where piv: "find_pivot eqs = Some (p, rest)" by auto
  note fp = find_pivot_Some [OF piv]
  have pin: "p \<in> set eqs" using fp(2) by simp
  have plen: "length (fst p) = Suc n" using Suc.prems(1) pin by simp
  have rlen: "\<forall>e\<in>set rest. length (fst e) = Suc n" using Suc.prems(1) fp(2) by simp
  have pne: "fst p \<noteq> []" using plen by auto
  have len': "\<forall>e\<in>set (map (eliminate p) rest). length (fst e) = n"
    using rlen plen by (auto simp: eliminate_length)
  have reg': "regular (map (eliminate p) rest) n"
    unfolding regular_def
  proof (intro allI impI)
    fix ys
    assume a: "length ys = n \<and> (\<forall>e\<in>set (map (eliminate p) rest). dot (fst e) ys = 0)"
    let ?x = "- dot (tl (fst p)) ys / hd (fst p)"
    have peq: "dot (fst p) (?x # ys) = 0"
      using fp(1) by (simp add: dot_hd_tl [OF pne])
    have all: "dot (fst e) (?x # ys) = 0" if e: "e \<in> set eqs" for e
    proof (cases "e = p")
      case True
      then show ?thesis using peq by (simp only:)
    next
      case False
      with e fp(2) have er: "e \<in> set rest" by blast
      then have el: "length (fst e) = Suc n" using rlen by blast
      from er have "eliminate p e \<in> set (map (eliminate p) rest)" by simp
      with a have z: "dot (fst (eliminate p e)) ys = 0" by blast
      have "dot (fst e) (?x # ys) - snd e
            = (dot (fst (eliminate p e)) ys - snd (eliminate p e))
              + hd (fst e) / hd (fst p) * (dot (fst p) (?x # ys) - snd p)"
        by (rule eliminate_dot [OF el plen fp(1)])
      moreover have "snd (eliminate p e) = snd e - hd (fst e) / hd (fst p) * snd p"
        by (simp add: eliminate_def Let_def)
      ultimately have "dot (fst e) (?x # ys) - snd e
            = (0 - (snd e - hd (fst e) / hd (fst p) * snd p))
              + hd (fst e) / hd (fst p) * (0 - snd p)"
        by (simp only: z peq)
      then show ?thesis by (simp add: algebra_simps)
    qed
    have "length (?x # ys) = Suc n \<and> (\<forall>e\<in>set eqs. dot (fst e) (?x # ys) = 0)"
      using a all by simp
    with Suc.prems(2) [unfolded regular_def]
    have "?x # ys = replicate (Suc n) 0" by blast
    then show "ys = replicate n 0" by simp
  qed
  from Suc.IH [OF len' reg'] piv show ?case by (auto split: option.splits)
qed


section \<open>The matrix of \<open>dCoef\<close> is regular\<close>

lemma sum_shift_power:
  fixes t :: real
  shows "(\<Sum>i<Suc N. (if i = 0 then 0 else p (i - 1)) * t ^ i) = t * (\<Sum>i<N. p i * t ^ i)"
  by (simp add: sum.lessThan_Suc_shift sum_distrib_left mult_ac del: sum.lessThan_Suc)

lemma sum_truncate_power:
  fixes t :: real
  shows "(\<Sum>i<Suc N. (if i < N then a * p i else 0) * t ^ i) = a * (\<Sum>i<N. p i * t ^ i)"
  by (simp add: sum_distrib_left mult_ac)

lemma prod_linear_poly:
  "\<exists>p. \<forall>t::real. prod_list (map (\<lambda>a. t - a) as) = (\<Sum>i<Suc (length as). p i * t ^ i)"
proof (induction as)
  case Nil
  show ?case by (rule exI [of _ "\<lambda>i. 1"]) simp
next
  case (Cons a as)
  then obtain p where p: "\<And>t. prod_list (map (\<lambda>a. t - a) as) = (\<Sum>i<Suc (length as). p i * t ^ i)"
    by blast
  let ?N = "Suc (length as)"
  let ?q = "\<lambda>i. (if i = 0 then 0 else p (i - 1)) - (if i < ?N then a * p i else 0)"
  have "prod_list (map (\<lambda>a. t - a) (a # as)) = (\<Sum>i<Suc ?N. ?q i * t ^ i)" for t
  proof -
    have 1: "(\<Sum>i<Suc ?N. (if i = 0 then 0 else p (i - 1)) * t ^ i) = t * (\<Sum>i<?N. p i * t ^ i)"
      by (rule sum_shift_power)
    have 2: "(\<Sum>i<Suc ?N. (if i < ?N then a * p i else 0) * t ^ i) = a * (\<Sum>i<?N. p i * t ^ i)"
      by (rule sum_truncate_power)
    have "(\<Sum>i<Suc ?N. ?q i * t ^ i)
            = (\<Sum>i<Suc ?N. (if i = 0 then 0 else p (i - 1)) * t ^ i)
              - (\<Sum>i<Suc ?N. (if i < ?N then a * p i else 0) * t ^ i)"
      by (simp only: left_diff_distrib sum_subtractf)
    also have "\<dots> = (t - a) * (\<Sum>i<?N. p i * t ^ i)"
      by (simp only: 1 2 left_diff_distrib)
    finally show ?thesis by (simp add: p)
  qed
  then show ?case by (intro exI [of _ ?q] allI) simp
qed

lemma odd_moments_vanish:
  fixes x c :: "nat \<Rightarrow> real"
  assumes ker: "\<And>i. i < n \<Longrightarrow> (\<Sum>j<n. x j ^ (2 * i + 1) * c j) = 0"
  shows "(\<Sum>j<n. c j * x j * (\<Sum>i<n. p i * ((x j)\<^sup>2) ^ i)) = 0"
proof -
  have "(\<Sum>j<n. c j * x j * (\<Sum>i<n. p i * ((x j)\<^sup>2) ^ i))
          = (\<Sum>j<n. \<Sum>i<n. p i * (x j ^ (2 * i + 1) * c j))"
    by (simp add: sum_distrib_left power_mult [symmetric] mult_ac)
  also have "\<dots> = (\<Sum>i<n. \<Sum>j<n. p i * (x j ^ (2 * i + 1) * c j))"
    by (rule sum.swap)
  also have "\<dots> = (\<Sum>i<n. p i * (\<Sum>j<n. x j ^ (2 * i + 1) * c j))"
    by (simp only: sum_distrib_left)
  also have "\<dots> = 0"
  proof (rule sum.neutral, rule ballI)
    fix i assume "i \<in> {..<n}"
    then have "i < n" by simp
    from ker [OF this] show "p i * (\<Sum>j<n. x j ^ (2 * i + 1) * c j) = 0"
      by (simp only: mult_zero_right)
  qed
  finally show ?thesis .
qed

lemma odd_vandermonde_kernel:
  fixes x c :: "nat \<Rightarrow> real"
  assumes pos: "\<And>j. j < n \<Longrightarrow> 0 < x j"
    and inj: "\<And>j k. j < n \<Longrightarrow> k < n \<Longrightarrow> j \<noteq> k \<Longrightarrow> x j \<noteq> x k"
    and ker: "\<And>i. i < n \<Longrightarrow> (\<Sum>j<n. x j ^ (2 * i + 1) * c j) = 0"
    and k: "k < n"
  shows "c k = 0"
proof -
  let ?as = "map (\<lambda>m. (x m)\<^sup>2) ([0..<k] @ [Suc k..<n])"
  let ?P = "\<lambda>t. prod_list (map (\<lambda>a. t - a) ?as)"
  have len: "Suc (length ?as) = n" using k by simp
  obtain p where p0: "\<forall>t. ?P t = (\<Sum>i<Suc (length ?as). p i * t ^ i)"
    using prod_linear_poly [of ?as] by blast
  have p: "?P t = (\<Sum>i<n. p i * t ^ i)" for t
    using p0 by (simp only: len)
  have sq: "(x j)\<^sup>2 \<noteq> (x m)\<^sup>2" if "j < n" "m < n" "j \<noteq> m" for j m
  proof
    assume "(x j)\<^sup>2 = (x m)\<^sup>2"
    then have "\<bar>x j\<bar> = \<bar>x m\<bar>" by (simp add: power2_eq_iff abs_eq_iff)
    with pos [OF that(1)] pos [OF that(2)] have "x j = x m" by simp
    with inj [OF that] show False by simp
  qed
  have zero: "?P ((x j)\<^sup>2) = 0" if "j < n" "j \<noteq> k" for j
  proof -
    from that have "j \<in> set ([0..<k] @ [Suc k..<n])" by auto
    then have "(x j)\<^sup>2 - (x j)\<^sup>2 \<in> set (map (\<lambda>a. (x j)\<^sup>2 - a) ?as)" by auto
    then have "0 \<in> set (map (\<lambda>a. (x j)\<^sup>2 - a) ?as)" by simp
    then show ?thesis by (simp only: prod_list_zero_iff simp_thms)
  qed
  have nz: "?P ((x k)\<^sup>2) \<noteq> 0"
  proof -
    have "0 \<notin> set (map (\<lambda>a. (x k)\<^sup>2 - a) ?as)"
    proof
      assume "0 \<in> set (map (\<lambda>a. (x k)\<^sup>2 - a) ?as)"
      then have "0 \<in> (\<lambda>m. (x k)\<^sup>2 - (x m)\<^sup>2) ` set ([0..<k] @ [Suc k..<n])"
        by (simp only: set_map image_image)
      then obtain m where m: "m \<in> set ([0..<k] @ [Suc k..<n])" and e: "0 = (x k)\<^sup>2 - (x m)\<^sup>2"
        by (rule imageE)
      from m k have "m < n" "k \<noteq> m" by auto
      moreover from e have "(x k)\<^sup>2 = (x m)\<^sup>2" by simp
      ultimately have "m < n" "k \<noteq> m" "(x k)\<^sup>2 = (x m)\<^sup>2" by blast+
      with sq [OF k] show False by blast
    qed
    then show ?thesis by (simp only: prod_list_zero_iff simp_thms)
  qed
  have "(\<Sum>j<n. c j * x j * ?P ((x j)\<^sup>2)) = 0"
    unfolding p using ker by (rule odd_moments_vanish)
  moreover have "(\<Sum>j<n. c j * x j * ?P ((x j)\<^sup>2)) = (\<Sum>j<n. if j = k then c k * x k * ?P ((x k)\<^sup>2) else 0)"
  proof (rule sum.cong [OF refl])
    fix j assume "j \<in> {..<n}"
    then have j: "j < n" by simp
    show "c j * x j * ?P ((x j)\<^sup>2) = (if j = k then c k * x k * ?P ((x k)\<^sup>2) else 0)"
    proof (cases "j = k")
      case True
      then show ?thesis by (simp only: if_True simp_thms)
    next
      case False
      with zero [OF j False] show ?thesis by (simp only: if_False mult_zero_right)
    qed
  qed
  moreover have "(\<Sum>j<n. if j = k then c k * x k * ?P ((x k)\<^sup>2) else 0) = c k * x k * ?P ((x k)\<^sup>2)"
    using k by simp
  ultimately have "c k * x k * ?P ((x k)\<^sup>2) = 0" by simp
  with nz pos [OF k] show ?thesis by simp
qed


lemma dot_map_upt_shift:
  "dot (map f [m..<m + length xs]) xs = (\<Sum>j<length xs. f (m + j) * xs ! j)"
proof (induction xs arbitrary: m)
  case Nil
  then show ?case by simp
next
  case (Cons x xs)
  have "m < m + length (x # xs)" by simp
  then have "[m..<m + length (x # xs)] = m # [Suc m..<m + length (x # xs)]"
    by (rule upt_conv_Cons)
  moreover have "m + length (x # xs) = Suc m + length xs" by simp
  ultimately have "[m..<m + length (x # xs)] = m # [Suc m..<Suc m + length xs]"
    by (simp only:)
  then have "dot (map f [m..<m + length (x # xs)]) (x # xs)
               = f m * x + dot (map f [Suc m..<Suc m + length xs]) xs"
    by simp
  also have "\<dots> = f m * x + (\<Sum>j<length xs. f (Suc m + j) * xs ! j)"
    by (simp only: Cons.IH)
  also have "\<dots> = (\<Sum>j<length (x # xs). f (m + j) * (x # xs) ! j)"
    by (simp add: sum.lessThan_Suc_shift del: sum.lessThan_Suc)
  finally show ?case .
qed

lemma dot_map_upt: "length xs = n \<Longrightarrow> dot (map f [0..<n]) xs = (\<Sum>j<n. f j * xs ! j)"
  using dot_map_upt_shift [of f 0 xs] by simp

text \<open>The system that \<open>dCoef\<close> hands to \<open>mldivide\<close>, for nodes \<open>X\<close> and first right-hand side \<open>\<beta>\<close>.\<close>

lemma mldivide_odd_vandermonde:
  fixes X :: "nat \<Rightarrow> real"
  assumes n: "0 < n"
    and pos: "\<And>j. j < n \<Longrightarrow> 0 < X j"
    and inj: "\<And>j k. j < n \<Longrightarrow> k < n \<Longrightarrow> j \<noteq> k \<Longrightarrow> X j \<noteq> X k"
  shows "\<exists>c. mldivide
               \<lparr>dims = [n, n],
                pr = fold (\<lambda>j. fold (\<lambda>i pA. pA[j * n + i := X j ^ (2 * (i + 1) - 1)]) [0..<n])
                       [0..<n] (replicate (n * n) 0)\<rparr>
               \<lparr>dims = [n, 1], pr = (replicate n 0)[0 := \<beta>]\<rparr>
             = Some \<lparr>dims = [n, 1], pr = c\<rparr>
           \<and> length c = n
           \<and> (\<forall>i<n. (\<Sum>j<n. X j ^ (2 * (i + 1) - 1) * c ! j) = (if i = 0 then \<beta> else 0))"
proof -
  let ?pA = "fold (\<lambda>j. fold (\<lambda>i pA. pA[j * n + i := X j ^ (2 * (i + 1) - 1)]) [0..<n])
                       [0..<n] (replicate (n * n) 0)"
  let ?pb = "(replicate n (0::real))[0 := \<beta>]"
  let ?row = "\<lambda>i. map (\<lambda>j. X j ^ (2 * (i + 1) - 1)) [0..<n]"
  let ?rhs = "\<lambda>i::nat. if i = 0 then \<beta> else 0"
  let ?eqs = "map (\<lambda>i. (?row i, ?rhs i)) [0..<n]"
  have entry: "?pA ! (j * n + i) = X j ^ (2 * (i + 1) - 1)" if "j < n" "i < n" for i j
    using that by (subst fold_assign_grid) simp_all
  have rhs: "?pb ! i = ?rhs i" if "i < n" for i
    using that by (simp add: nth_list_update)
  have eqs: "map (\<lambda>i. (map (\<lambda>j. ?pA ! (j * n + i)) [0..<n], ?pb ! i)) [0..<n] = ?eqs"
  proof (rule map_cong [OF refl])
    fix i assume "i \<in> set [0..<n]"
    then have i: "i < n" by simp
    have "map (\<lambda>j. ?pA ! (j * n + i)) [0..<n] = ?row i"
    proof (rule map_cong [OF refl])
      fix j assume "j \<in> set [0..<n]"
      then have "j < n" by simp
      then show "?pA ! (j * n + i) = X j ^ (2 * (i + 1) - 1)" using i by (rule entry)
    qed
    then show "(map (\<lambda>j. ?pA ! (j * n + i)) [0..<n], ?pb ! i) = (?row i, ?rhs i)"
      by (simp only: rhs [OF i])
  qed
  have mem: "(?row i, ?rhs i) \<in> set ?eqs" if "i < n" for i
    unfolding set_map using that by (intro image_eqI [where x = i, OF refl]) simp
  have lens: "\<forall>e\<in>set ?eqs. length (fst e) = n" by auto
  have leq: "length ?eqs = n" by simp
  have reg: "regular ?eqs n"
    unfolding regular_def
  proof (intro allI impI)
    fix xs
    assume a: "length xs = n \<and> (\<forall>e\<in>set ?eqs. dot (fst e) xs = 0)"
    then have l: "length xs = n" by (rule conjunct1)
    have ker: "(\<Sum>j<n. X j ^ (2 * i + 1) * xs ! j) = 0" if i: "i < n" for i
    proof -
      from a mem [OF i] have "dot (fst (?row i, ?rhs i)) xs = 0" by blast
      then have "dot (?row i) xs = 0" by (simp only: fst_conv)
      then show ?thesis by (simp add: dot_map_upt [OF l])
    qed
    have "xs ! k = 0" if "k < n" for k
      using pos inj ker that by (rule odd_vandermonde_kernel)
    then show "xs = replicate n 0"
      using l by (intro nth_equalityI) simp_all
  qed
  from solve_complete [OF lens reg] obtain c where c: "solve ?eqs n = Some c" by auto
  from solve_sound [OF c leq lens]
  have lc: "length c = n" and sol: "\<forall>e\<in>set ?eqs. dot (fst e) c = snd e" by simp_all
  have res: "(\<Sum>j<n. X j ^ (2 * (i + 1) - 1) * c ! j) = ?rhs i" if i: "i < n" for i
  proof -
    from sol mem [OF i] have "dot (fst (?row i, ?rhs i)) c = snd (?row i, ?rhs i)" by blast
    then have "dot (?row i) c = ?rhs i" by (simp only: fst_conv snd_conv)
    then show ?thesis by (simp only: dot_map_upt [OF lc])
  qed
  have "mldivide \<lparr>dims = [n, n], pr = ?pA\<rparr> \<lparr>dims = [n, 1], pr = ?pb\<rparr> = Some \<lparr>dims = [n, 1], pr = c\<rparr>"
    unfolding mldivide_def Let_def
    by (simp only: mxGetM_def mxArray.simps list.case eqs c option.map)
  with lc res show ?thesis by blast
qed

text \<open>
  With the entries and the elimination read in exact arithmetic, the system that \<open>dCoef\<close>
  builds is regular for every positive order and both grid types, and the vector returned is
  its solution. The two lemmas say nothing about the rounding of the doubles that the
  source stores and that the solver works on.
\<close>

lemma dCoef_regular_grid:
  assumes "0 < order"
  shows "\<exists>c. dCoef order ''r'' = Inr \<lparr>dims = [order, 1], pr = c\<rparr> \<and> length c = order
             \<and> (\<forall>i<order. (\<Sum>j<order. (real j + 1) ^ (2 * (i + 1) - 1) * c ! j)
                              = (if i = 0 then 1 / 2 else 0))"
proof -
  from mldivide_odd_vandermonde [OF assms, of "\<lambda>j. real j + 1" "1 / 2"]
  obtain c where m: "mldivide
               \<lparr>dims = [order, order],
                pr = fold (\<lambda>j. fold (\<lambda>i pA. pA[j * order + i := (real j + 1) ^ (2 * (i + 1) - 1)])
                             [0..<order]) [0..<order] (replicate (order * order) 0)\<rparr>
               \<lparr>dims = [order, 1], pr = (replicate order 0)[0 := 1 / 2]\<rparr>
             = Some \<lparr>dims = [order, 1], pr = c\<rparr>"
    and r: "length c = order"
       "\<forall>i<order. (\<Sum>j<order. (real j + 1) ^ (2 * (i + 1) - 1) * c ! j) = (if i = 0 then 1 / 2 else 0)"
    by auto
  have o: "(order = 0) = False" using assms by simp
  have "dCoef order ''r'' = Inr \<lparr>dims = [order, 1], pr = c\<rparr>"
    unfolding dCoef_def dCoef_system_def Let_def
    by (simp only: m o if_True if_False sum.case prod.case option.case simp_thms)
  with r show ?thesis by blast
qed


lemma dCoef_staggered_grid:
  assumes "0 < order"
  shows "\<exists>c. dCoef order ''s'' = Inr \<lparr>dims = [order, 1], pr = c\<rparr> \<and> length c = order
             \<and> (\<forall>i<order. (\<Sum>j<order. (2 * (real j + 1) - 1) ^ (2 * (i + 1) - 1) * c ! j)
                              = (if i = 0 then 1 else 0))"
proof -
  from mldivide_odd_vandermonde [OF assms, of "\<lambda>j. 2 * (real j + 1) - 1" 1]
  obtain c where m: "mldivide
               \<lparr>dims = [order, order],
                pr = fold (\<lambda>j. fold (\<lambda>i pA. pA[j * order + i := (2 * (real j + 1) - 1) ^ (2 * (i + 1) - 1)])
                             [0..<order]) [0..<order] (replicate (order * order) 0)\<rparr>
               \<lparr>dims = [order, 1], pr = (replicate order 0)[0 := 1]\<rparr>
             = Some \<lparr>dims = [order, 1], pr = c\<rparr>"
    and r: "length c = order"
       "\<forall>i<order. (\<Sum>j<order. (2 * (real j + 1) - 1) ^ (2 * (i + 1) - 1) * c ! j)
                      = (if i = 0 then 1 else 0)"
    by auto
  have o: "(order = 0) = False" using assms by simp
  have t: "(''s'' = ''r'') = False" by simp
  have "dCoef order ''s'' = Inr \<lparr>dims = [order, 1], pr = c\<rparr>"
    unfolding dCoef_def dCoef_system_def Let_def
    by (simp only: m o t if_True if_False sum.case prod.case option.case simp_thms)
  with r show ?thesis by blast
qed

lemma dCoef_InvalidArgument_iff:
  "dCoef order type = Inl InvalidArgument \<longleftrightarrow> type \<noteq> ''r'' \<and> type \<noteq> ''s''"
  unfolding dCoef_def dCoef_system_def Let_def
  by (simp split: option.split)

text \<open>
  Claim C4, amended. For order 2 and the staggered type the system of \<open>dCoef\<close> is
  \<open>[[1,3],[1,27]] c = [1,0]\<close> (the matrix is stored by columns, \<open>[1, 1, 3, 27]\<close>) and the
  coefficient vector is \<open>[9/8, -1/24]\<close>, about \<open>[1.125, -0.04167]\<close>.
\<close>

theorem dCoef_staggered_order2:
  "dCoef_system 2 ''s'' = Inr (\<lparr>dims = [2, 2], pr = [1, 1, 3, 27]\<rparr>, \<lparr>dims = [2, 1], pr = [1, 0]\<rparr>)
   \<and> dCoef 2 ''s'' = Inr \<lparr>dims = [2, 1], pr = [9 / 8, - 1 / 24]\<rparr>
   \<and> \<bar>9 / 8 - 1125 / 1000 :: real\<bar> < 1 / 100000
   \<and> \<bar>- 1 / 24 - (- 4167 / 100000) :: real\<bar> < 1 / 100000"
proof -
  have 1: "dCoef_system 2 ''s'' = Inr (\<lparr>dims = [2, 2], pr = [1, 1, 3, 27]\<rparr>, \<lparr>dims = [2, 1], pr = [1, 0]\<rparr>)"
    by code_simp
  have 2: "dCoef 2 ''s'' = Inr \<lparr>dims = [2, 1], pr = [9 / 8, - 1 / 24]\<rparr>"
    by code_simp
  have 3: "\<bar>9 / 8 - 1125 / 1000 :: real\<bar> < 1 / 100000"
    and 4: "\<bar>- 1 / 24 - (- 4167 / 100000) :: real\<bar> < 1 / 100000"
    by simp_all
  from 1 2 3 4 show ?thesis by (intro conjI)
qed

text \<open>
  Claim C4 as stated names the matrix \<open>[[1,1],[1,27]]\<close> and the solution
  \<open>[1.03846, -0.03846]\<close>. The entry in row 0 and column 1 that \<open>dCoef\<close> stores is
  \<open>(2*2-1)^1 = 3\<close>, and the solution it returns differs from the claimed one in the first
  decimal place.
\<close>

theorem dCoef_staggered_order2_counterexample:
  "dCoef_system 2 ''s'' \<noteq> Inr (\<lparr>dims = [2, 2], pr = [1, 1, 1, 27]\<rparr>, \<lparr>dims = [2, 1], pr = [1, 0]\<rparr>)
   \<and> dCoef 2 ''s'' = Inr \<lparr>dims = [2, 1], pr = [9 / 8, - 1 / 24]\<rparr>
   \<and> \<not> \<bar>9 / 8 - 103846 / 100000 :: real\<bar> < 1 / 100
   \<and> \<not> \<bar>- 1 / 24 - (- 3846 / 100000) :: real\<bar> < 1 / 1000"
proof -
  have 1: "dCoef_system 2 ''s'' = Inr (\<lparr>dims = [2, 2], pr = [1, 1, 3, 27]\<rparr>, \<lparr>dims = [2, 1], pr = [1, 0]\<rparr>)"
    by code_simp
  have 2: "dCoef 2 ''s'' = Inr \<lparr>dims = [2, 1], pr = [9 / 8, - 1 / 24]\<rparr>"
    by code_simp
  have 3: "\<not> \<bar>9 / 8 - 103846 / 100000 :: real\<bar> < 1 / 100"
    and 4: "\<not> \<bar>- 1 / 24 - (- 3846 / 100000) :: real\<bar> < 1 / 1000"
    by simp_all
  from 1 have 5: "dCoef_system 2 ''s'' \<noteq> Inr (\<lparr>dims = [2, 2], pr = [1, 1, 1, 27]\<rparr>, \<lparr>dims = [2, 1], pr = [1, 0]\<rparr>)"
    by simp
  from 5 2 3 4 show ?thesis by (intro conjI)
qed

text \<open>
  Claim C5, amended. \<open>dCoef\<close> accepts exactly the type strings \<open>''r''\<close> and \<open>''s''\<close>: any
  other string fails with \<open>InvalidArgument\<close>; for these two it never fails with
  \<open>InvalidArgument\<close>, and for a positive order it returns a coefficient vector of
  \<open>order\<close> entries.
\<close>

theorem dCoef_type_check:
  "(type \<noteq> ''r'' \<and> type \<noteq> ''s'' \<longrightarrow> dCoef order type = Inl InvalidArgument)
   \<and> (type = ''r'' \<or> type = ''s'' \<longrightarrow>
        dCoef order type \<noteq> Inl InvalidArgument
        \<and> (0 < order \<longrightarrow>
             (\<exists>c. dCoef order type = Inr \<lparr>dims = [order, 1], pr = c\<rparr> \<and> length c = order)))"
proof (intro conjI impI)
  assume "type \<noteq> ''r'' \<and> type \<noteq> ''s''"
  then show "dCoef order type = Inl InvalidArgument" by (simp add: dCoef_InvalidArgument_iff)
next
  assume "type = ''r'' \<or> type = ''s''"
  then show "dCoef order type \<noteq> Inl InvalidArgument"
    by (simp only: dCoef_InvalidArgument_iff) blast
next
  assume t: "type = ''r'' \<or> type = ''s''" and o: "0 < order"
  from t show "\<exists>c. dCoef order type = Inr \<lparr>dims = [order, 1], pr = c\<rparr> \<and> length c = order"
  proof
    assume "type = ''r''"
    with dCoef_regular_grid [OF o] show ?thesis by blast
  next
    assume "type = ''s''"
    with dCoef_staggered_grid [OF o] show ?thesis by blast
  qed
qed

theorem dCoef_type_check_witness:
  "dCoef 3 ''staggered'' = Inl InvalidArgument
   \<and> dCoef 3 ''s'' \<noteq> Inl InvalidArgument
   \<and> (\<exists>c. dCoef 3 ''s'' = Inr \<lparr>dims = [3, 1], pr = c\<rparr> \<and> length c = 3)"
proof -
  from dCoef_type_check [of "''staggered''" 3]
  have 1: "dCoef 3 ''staggered'' = Inl InvalidArgument" by simp
  from dCoef_type_check [of "''s''" 3]
  have 2: "dCoef 3 ''s'' \<noteq> Inl InvalidArgument"
    and 3: "\<exists>c. dCoef 3 ''s'' = Inr \<lparr>dims = [3, 1], pr = c\<rparr> \<and> length c = 3"
    by simp_all
  from 1 2 3 show ?thesis by (intro conjI)
qed

text \<open>
  Claim C5 as stated names the strings "regular" and "staggered". \<open>dCoef\<close> rejects both and
  accepts \<open>''r''\<close>.
\<close>

theorem dCoef_type_names_counterexample:
  "dCoef 1 ''regular'' = Inl InvalidArgument
   \<and> dCoef 1 ''staggered'' = Inl InvalidArgument
   \<and> dCoef 1 ''r'' = Inr \<lparr>dims = [1, 1], pr = [1 / 2]\<rparr>"
proof -
  have 1: "dCoef 1 ''regular'' = Inl InvalidArgument" by code_simp
  have 2: "dCoef 1 ''staggered'' = Inl InvalidArgument" by code_simp
  have 3: "dCoef 1 ''r'' = Inr \<lparr>dims = [1, 1], pr = [1 / 2]\<rparr>" by code_simp
  from 1 2 3 show ?thesis by (intro conjI)
qed

end
